theory Spec2Isabelle
  imports Main
begin

section \<open>Errors\<close>

text \<open>
  Python exceptions are values. A failing \<^verbatim>\<open>assert\<close> is \<open>AssertionError\<close>; attribute
  access on \<^verbatim>\<open>None\<close> is \<open>AttributeError\<close>, indexing \<^verbatim>\<open>None\<close> is \<open>TypeError\<close>; \<^verbatim>\<open>raise Exception(...)\<close> is \<open>PyException\<close>; \<open>NotFoundErr\<close> is minidom's
  \<^verbatim>\<open>xml.dom.NotFoundErr\<close>.
\<close>

datatype error =
    AssertionError
  | ValueError
  | IndexError
  | AttributeError
  | TypeError
  | NotFoundErr
  | RecursionError
  | PyException

section \<open>Version conversion router (class SchemaInfo)\<close>

text \<open>
  \<^verbatim>\<open>convertorsfrom\<close> is a dictionary from source version to a dictionary from target version
  to a converter class. Python dictionaries iterate in insertion order, so both levels are
  association lists, read with \<open>map_of\<close>; the keys are \<open>map fst\<close>.
\<close>

type_synonym 'c registry = "(string \<times> (string \<times> 'c) list) list"

text \<open>
  The result of \<^verbatim>\<open>getConverter\<close>: an instance of a registered class, or a
  \<^verbatim>\<open>versioning.ConvertorChain\<close> built from the list \<^verbatim>\<open>chain\<close>, whose entries are
  themselves results of \<^verbatim>\<open>getConverter(...,directonly=True)\<close> (so possibly \<^verbatim>\<open>None\<close>).
\<close>

datatype 'c convertor =
    Instance 'c
  | ConvertorChain "'c convertor option list"

definition keys_from :: "'c registry \<Rightarrow> string \<Rightarrow> string list" where
  "keys_from reg sourceid =
     (case map_of reg sourceid of None \<Rightarrow> [] | Some d \<Rightarrow> map fst d)"

definition direct :: "'c registry \<Rightarrow> string \<Rightarrow> string \<Rightarrow> 'c option" where
  "direct reg sourceid targetid =
     (case map_of reg sourceid of None \<Rightarrow> None | Some d \<Rightarrow> map_of d targetid)"

definition all_targets :: "'c registry \<Rightarrow> string set" where
  "all_targets reg = (\<Union>d \<in> snd ` set reg. fst ` set d)"

function findIndirectConversion ::
  "'c registry \<Rightarrow> string \<Rightarrow> string \<Rightarrow> string list \<Rightarrow> string list list" where
  "findIndirectConversion reg sourceid targetid disallowed =
     concat (map (\<lambda>curnext.
        if curnext \<in> set (disallowed @ [sourceid]) then []
        else if curnext = targetid then [[sourceid, curnext]]
        else map (\<lambda>cr. sourceid # cr)
               (findIndirectConversion reg curnext targetid (disallowed @ [sourceid])))
      (keys_from reg sourceid))"
  by pat_completeness auto

lemma keys_from_targets:
  assumes "x \<in> set (keys_from reg s)"
  shows "x \<in> all_targets reg"
proof -
  from assms obtain d where d: "map_of reg s = Some d" and x: "x \<in> fst ` set d"
    unfolding keys_from_def by (cases "map_of reg s") auto
  from d have "(s, d) \<in> set reg" by (rule map_of_SomeD)
  then have "d \<in> snd ` set reg" by force
  with x show ?thesis unfolding all_targets_def by blast
qed

lemma finite_all_targets: "finite (all_targets reg)"
  unfolding all_targets_def by auto

termination findIndirectConversion
proof (relation "measure (\<lambda>(reg, sourceid, targetid, disallowed).
          card (all_targets reg - set disallowed - {sourceid}))", goal_cases)
  case 1
  show ?case by simp
next
  case (2 reg sourceid targetid disallowed curnext)
  have fin: "finite (all_targets reg - set disallowed - {sourceid})"
    using finite_all_targets by auto
  have mem: "curnext \<in> all_targets reg - set disallowed - {sourceid}"
    using 2 keys_from_targets by fastforce
  have "all_targets reg - set (disallowed @ [sourceid]) - {curnext}
          \<subset> all_targets reg - set disallowed - {sourceid}"
    using mem by auto
  then show ?case
    using fin by (simp add: psubset_card_mono)
qed

declare findIndirectConversion.simps [simp del]

function getConverter ::
  "'c registry \<Rightarrow> string \<Rightarrow> string \<Rightarrow> bool \<Rightarrow> 'c convertor option" where
  "getConverter reg sourceid targetid directonly =
     (case direct reg sourceid targetid of
        Some cls \<Rightarrow> Some (Instance cls)
      | None \<Rightarrow>
          if \<not> directonly then
            (let indirectroutes = findIndirectConversion reg sourceid targetid [] in
             if length indirectroutes > 0 then
               (let route = hd (sort_key length indirectroutes);
                    chain = map (\<lambda>istep. getConverter reg (route ! istep) (route ! (istep + 1)) True)
                              [0 ..< length route - 1]
                in Some (ConvertorChain chain))
             else None)
          else None)"
  by pat_completeness auto
termination
  by (relation "measure (\<lambda>(reg, sourceid, targetid, directonly). if directonly then 0 else 1)") auto

declare getConverter.simps [simp del]

text \<open>
  Modelled from the spec: \<^verbatim>\<open>versioning.ConvertorChain.convert\<close> (module \<^verbatim>\<open>versioning\<close> is not
  among the sources). The spec: the chain "applies each direct converter in sequence, each
  step's output becoming the next step's input". A registered converter is run by the
  parameter \<open>run\<close>; a \<^verbatim>\<open>None\<close> entry in the chain cannot be called.
\<close>

fun convert :: "('c \<Rightarrow> 's \<Rightarrow> 's) \<Rightarrow> 'c convertor \<Rightarrow> 's \<Rightarrow> error + 's"
and convert_chain :: "('c \<Rightarrow> 's \<Rightarrow> 's) \<Rightarrow> 'c convertor option list \<Rightarrow> 's \<Rightarrow> error + 's" where
  "convert run (Instance c) x = Inr (run c x)"
| "convert run (ConvertorChain chain) x = convert_chain run chain x"
| "convert_chain run [] x = Inr x"
| "convert_chain run (None # rest) x = Inl AttributeError"
| "convert_chain run (Some c # rest) x =
     (case convert run c x of Inl e \<Rightarrow> Inl e | Inr y \<Rightarrow> convert_chain run rest y)"

text \<open>
  A route in the registry graph: consecutive versions are joined by a registered direct
  converter. A simple route from \<open>s\<close> to \<open>t\<close> has at least one hop and visits no version twice.
\<close>

fun is_route :: "'c registry \<Rightarrow> string list \<Rightarrow> bool" where
  "is_route reg [] = True"
| "is_route reg [a] = True"
| "is_route reg (a # b # rest) = (b \<in> set (keys_from reg a) \<and> is_route reg (b # rest))"

definition simple_route :: "'c registry \<Rightarrow> string \<Rightarrow> string \<Rightarrow> string list \<Rightarrow> bool" where
  "simple_route reg s t r =
     (2 \<le> length r \<and> hd r = s \<and> last r = t \<and> distinct r \<and> is_route reg r)"

fun hops :: "string list \<Rightarrow> (string \<times> string) list" where
  "hops (a # b # rest) = (a, b) # hops (b # rest)"
| "hops _ = []"

definition routes_avoiding :: "'c registry \<Rightarrow> string \<Rightarrow> string \<Rightarrow> string set \<Rightarrow> string list set" where
  "routes_avoiding reg s t D =
     {s # r | r. r \<noteq> [] \<and> is_route reg (s # r) \<and> last r = t \<and> distinct r \<and> set r \<inter> (D \<union> {s}) = {}}"


text \<open>A cyclic registry used to exercise the router: A to B, B to A, B to C.\<close>

definition reg0 :: "nat registry" where
  "reg0 = [(''A'', [(''B'', 1)]), (''B'', [(''A'', 2), (''C'', 3)])]"


section \<open>Strings (Python \<^verbatim>\<open>str\<close>)\<close>

text \<open>
  A character is a code point below 256, so a string is Python text of such code points.
\<close>

text \<open>\<^verbatim>\<open>s.split(sep)\<close> for a one-character separator; the result is never empty.\<close>

fun str_split :: "char \<Rightarrow> string \<Rightarrow> string list" where
  "str_split sep [] = [[]]"
| "str_split sep (c # cs) =
     (if c = sep then [] # str_split sep cs
      else (case str_split sep cs of
              [] \<Rightarrow> [[c]]
            | w # ws \<Rightarrow> (c # w) # ws))"

text \<open>\<^verbatim>\<open>sep.join(parts)\<close>.\<close>

fun str_join :: "string \<Rightarrow> string list \<Rightarrow> string" where
  "str_join sep [] = []"
| "str_join sep [w] = w"
| "str_join sep (w # v # ws) = w @ sep @ str_join sep (v # ws)"

definition endswith :: "string \<Rightarrow> string \<Rightarrow> bool" where
  "endswith s suffix = (length suffix \<le> length s \<and> drop (length s - length suffix) s = suffix)"

definition startswith :: "string \<Rightarrow> string \<Rightarrow> bool" where
  "startswith s prefix = (take (length prefix) s = prefix)"

text \<open>\<^verbatim>\<open>s.rfind(c)\<close>: the last index of \<open>c\<close>, \<open>None\<close> for Python's \<open>-1\<close>.\<close>

fun rfind :: "string \<Rightarrow> char \<Rightarrow> nat option" where
  "rfind [] c = None"
| "rfind (x # xs) c =
     (case rfind xs c of
        Some i \<Rightarrow> Some (Suc i)
      | None \<Rightarrow> if x = c then Some 0 else None)"

text \<open>The decimal digits, which \<^verbatim>\<open>int()\<close> reads.\<close>

definition is_digit :: "char \<Rightarrow> bool" where
  "is_digit c = (c \<in> set ''0123456789'')"

text \<open>
  \<^verbatim>\<open>s.isdigit()\<close>: non-empty and all digits. Besides the decimal digits, the superscripts
  two, three and one (U+00B2, U+00B3, U+00B9) are digits for \<^verbatim>\<open>isdigit\<close>, though not for
  \<^verbatim>\<open>int()\<close>.
\<close>

definition is_digit_char :: "char \<Rightarrow> bool" where
  "is_digit_char c = (is_digit c \<or> c \<in> set [CHR 0xB2, CHR 0xB3, CHR 0xB9])"

definition isdigit :: "string \<Rightarrow> bool" where
  "isdigit s = (s \<noteq> [] \<and> list_all is_digit_char s)"

definition digit_val :: "char \<Rightarrow> nat" where
  "digit_val c = of_char c - 48"

text \<open>The number that a string of decimal digits denotes.\<close>

definition nat_of_digits :: "string \<Rightarrow> nat" where
  "nat_of_digits s = foldl (\<lambda>n c. 10 * n + digit_val c) 0 s"

section \<open>Schema documents\<close>

text \<open>
  The schema is an XML document that the store only reads: a tree of elements with attributes.
  Any other kind of DOM node (text, comment) is \<open>CharacterData\<close>.
\<close>

datatype xml =
    Element (localName: string) (attributes: "(string \<times> string) list") (childNodes: "xml list")
  | CharacterData string

fun is_element :: "xml \<Rightarrow> bool" where
  "is_element (Element _ _ _) = True"
| "is_element (CharacterData _) = False"

text \<open>\<^verbatim>\<open>node.getAttribute(name)\<close> is the empty string when the attribute is absent.\<close>

fun getAttribute :: "xml \<Rightarrow> string \<Rightarrow> string" where
  "getAttribute (Element _ atts _) name = (case map_of atts name of None \<Rightarrow> [] | Some v \<Rightarrow> v)"
| "getAttribute (CharacterData _) name = []"

fun hasAttribute :: "xml \<Rightarrow> string \<Rightarrow> bool" where
  "hasAttribute (Element _ atts _) name = (map_of atts name \<noteq> None)"
| "hasAttribute (CharacterData _) name = False"

text \<open>
  The child elements of a schema node with a given tag, in document order
  (\<^verbatim>\<open>ch.nodeType==ch.ELEMENT_NODE and ch.localName==name\<close>).
\<close>

fun child_elements :: "xml \<Rightarrow> string \<Rightarrow> xml list" where
  "child_elements (Element _ _ chs) name =
     filter (\<lambda>ch. is_element ch \<and> localName ch = name) chs"
| "child_elements (CharacterData _) name = []"

section \<open>Value documents\<close>

text \<open>
  The values live in a second DOM tree that the store mutates while nodes keep references
  into it, so its nodes are kept in a store of their own, addressed by number. An element
  carries its tag, attributes, parent, children and character data.
\<close>

type_synonym addr = nat

datatype nodetype = ELEMENT_NODE | DOCUMENT_NODE | TEXT_NODE

record domnode =
  nodeType :: nodetype
  tagName :: string
  domattrs :: "(string \<times> string) list"
  parentNode :: "addr option"
  domchildren :: "addr list"
  chardata :: string

type_synonym heap = "addr \<rightharpoonup> domnode"

section \<open>The node tree (class Node)\<close>

text \<open>
  A \<^verbatim>\<open>Node\<close> object is a node of a tree; the tree is a datatype, and a reference to a
  \<^verbatim>\<open>Node\<close> is its position: the list of child indices that leads to it from the root.
  \<^verbatim>\<open>node.parent\<close> is the position without its last index, and the root, whose parent is
  \<^verbatim>\<open>None\<close>, is the empty position. \<open>valid\<close> is \<^verbatim>\<open>controller is not None\<close>. The field
  \<^verbatim>\<open>futureindex\<close>, read only by \<^verbatim>\<open>getOwnIndex\<close>, is left out.
\<close>

record nodeattrs =
  valid :: bool
  templatenode :: xml
  valueroot :: "addr option"
  valuenode :: "addr option"
  location :: "string list"
  visible :: bool
  grouponly :: "string list"

datatype node = Node (attrs: nodeattrs) (children: "node list")

type_synonym pos = "nat list"

fun node_at :: "node \<Rightarrow> pos \<Rightarrow> node option" where
  "node_at n [] = Some n"
| "node_at n (i # p) =
     (if i < length (children n) then node_at (children n ! i) p else None)"

text \<open>\<^verbatim>\<open>node.getId()\<close> is \<^verbatim>\<open>location[-1]\<close>, an \<^verbatim>\<open>IndexError\<close> on the empty tuple.\<close>

definition getId :: "node \<Rightarrow> error + string" where
  "getId n = (if location (attrs n) = [] then Inl IndexError else Inr (last (location (attrs n))))"

definition canHaveClones :: "node \<Rightarrow> bool" where
  "canHaveClones n = (getAttribute (templatenode (attrs n)) ''maxOccurs'' \<notin> {[], ''1''})"

definition canHaveValue :: "node \<Rightarrow> bool" where
  "canHaveValue n = hasAttribute (templatenode (attrs n)) ''type''"

definition canHaveChildren :: "node \<Rightarrow> bool" where
  "canHaveChildren n =
     (if length (children n) > 0 then True
      else child_elements (templatenode (attrs n)) ''element'' \<noteq> [])"

definition isReadOnly :: "node \<Rightarrow> bool" where
  "isReadOnly n = hasAttribute (templatenode (attrs n)) ''readonly''"

text \<open>
  \<^verbatim>\<open>getSecondaryId\<close> asserts that the node has a value root and reads its \<^verbatim>\<open>id\<close> attribute.
\<close>

definition getSecondaryId :: "heap \<Rightarrow> node \<Rightarrow> error + string" where
  "getSecondaryId h n =
     (case valueroot (attrs n) of
        None \<Rightarrow> Inl AssertionError
      | Some a \<Rightarrow>
          (case h a of
             None \<Rightarrow> Inl AttributeError
           | Some d \<Rightarrow> Inr (case map_of (domattrs d) ''id'' of None \<Rightarrow> [] | Some v \<Rightarrow> v)))"

subsection \<open>Path resolution\<close>

text \<open>
  The secondary id read between square brackets: a number (\<^verbatim>\<open>name[2]\<close>) or a string
  (\<^verbatim>\<open>name['foo']\<close>, or any other bracketed text).
\<close>

datatype secid = SecInt nat | SecStr string

text \<open>
  The head of the loop body of \<^verbatim>\<open>getLocation\<close>: the name and the secondary id of a path
  component. \<^verbatim>\<open>int(secid)\<close> raises \<^verbatim>\<open>ValueError\<close> on a digit that is not decimal.
\<close>

definition parse_childname :: "string \<Rightarrow> error + string \<times> secid option" where
  "parse_childname childname =
     (if endswith childname '']'' \<and> CHR ''['' \<in> set childname then
        (case rfind childname (CHR ''['') of
           None \<Rightarrow> Inr (childname, None)
         | Some istart \<Rightarrow>
            (let secid = butlast (drop (istart + 1) childname);
                 childname' = take istart childname
             in if startswith secid [CHR 0x27] \<and> endswith secid [CHR 0x27]
                then Inr (childname', Some (SecStr (butlast (drop 1 secid))))
                else if isdigit secid then
                  (if list_all is_digit secid
                   then Inr (childname', Some (SecInt (nat_of_digits secid)))
                   else Inl ValueError)
                else Inr (childname', Some (SecStr secid))))
      else Inr (childname, None))"

text \<open>
  The inner loop of \<^verbatim>\<open>getLocation\<close> over \<^verbatim>\<open>node.children\<close>: \<open>i\<close> is the index of the child
  looked at and \<open>ich\<close> counts the children of that name seen so far. The result is the index
  of the child found, \<open>None\<close> when the loop runs to its end.
\<close>

fun find_child ::
  "heap \<Rightarrow> node list \<Rightarrow> string \<Rightarrow> secid option \<Rightarrow> nat \<Rightarrow> nat \<Rightarrow> error + nat option" where
  "find_child h [] childname secid i ich = Inr None"
| "find_child h (chnode # rest) childname secid i ich =
     (case getId chnode of
        Inl e \<Rightarrow> Inl e
      | Inr name \<Rightarrow>
          if name = childname then
            (case secid of
               None \<Rightarrow> Inr (Some i)
             | Some (SecInt k) \<Rightarrow>
                 if k = ich then Inr (Some i)
                 else find_child h rest childname secid (i + 1) (ich + 1)
             | Some (SecStr s) \<Rightarrow>
                 (case getSecondaryId h chnode of
                    Inl e \<Rightarrow> Inl e
                  | Inr sid \<Rightarrow>
                      if s = sid then Inr (Some i)
                      else find_child h rest childname secid (i + 1) (ich + 1)))
          else find_child h rest childname secid (i + 1) ich)"

text \<open>
  \<^verbatim>\<open>getLocation(location)\<close> with \<^verbatim>\<open>createoptional=False\<close>. \<open>self\<close> is the position of the node
  the method is called on; \<open>node\<close> is the loop variable, \<open>None\<close> once \<^verbatim>\<open>..\<close> has stepped above
  the root. The assertion on \<^verbatim>\<open>..\<close> tests \<^verbatim>\<open>self.parent\<close>, as the source does.
\<close>

fun getLocation_loop ::
  "heap \<Rightarrow> node \<Rightarrow> pos \<Rightarrow> pos option \<Rightarrow> string list \<Rightarrow> error + pos option" where
  "getLocation_loop h root self node [] = Inr node"
| "getLocation_loop h root self node (component # rest) =
     (case parse_childname component of
        Inl e \<Rightarrow> Inl e
      | Inr (childname, secid) \<Rightarrow>
        if childname = ''..'' then
          (if self = [] then Inl AssertionError
           else (case node of
                   None \<Rightarrow> Inl AttributeError
                 | Some p \<Rightarrow>
                     getLocation_loop h root self (if p = [] then None else Some (butlast p)) rest))
        else if childname \<noteq> [] \<and> childname \<noteq> ''.'' then
          (case node of
             None \<Rightarrow> Inl AttributeError
           | Some p \<Rightarrow>
              (case node_at root p of
                 None \<Rightarrow> Inl AttributeError
               | Some n \<Rightarrow>
                  (case find_child h (children n) childname secid 0 0 of
                     Inl e \<Rightarrow> Inl e
                   | Inr None \<Rightarrow> Inr None
                   | Inr (Some i) \<Rightarrow> getLocation_loop h root self (Some (p @ [i])) rest)))
        else getLocation_loop h root self node rest)"

definition getLocation :: "heap \<Rightarrow> node \<Rightarrow> pos \<Rightarrow> string list \<Rightarrow> error + pos option" where
  "getLocation h root self loc = getLocation_loop h root self (Some self) loc"

text \<open>\<^verbatim>\<open>node[path]\<close>, that is \<^verbatim>\<open>Node.__getitem__\<close>.\<close>

definition getitem :: "heap \<Rightarrow> node \<Rightarrow> pos \<Rightarrow> string \<Rightarrow> error + pos option" where
  "getitem h root self path = getLocation h root self (str_split (CHR ''/'') path)"

section \<open>The interface layer (class TypedStoreInterface)\<close>

text \<open>
  \<^verbatim>\<open>eventhandlers\<close> maps event names to callbacks. Only the \<^verbatim>\<open>beforeChange\<close> callback returns
  something (whether the change is allowed): it is a function of the node and the new value.
  The other callbacks return nothing; \<open>connected\<close> lists the events that have a handler, and
  each call of a handler is recorded in the store's event log.
\<close>

record 'v interface =
  showhidden :: bool
  omitgroupers :: bool
  interfacetype :: string
  blockNotifyOfHiddenNodes :: bool
  processDefaultChange :: int
  connected :: "string list"
  beforeChange :: "pos \<Rightarrow> 'v option \<Rightarrow> bool"
  upcomingvizchange :: "pos option"

definition isGrouper :: "('v, 'x) interface_scheme \<Rightarrow> node \<Rightarrow> bool" where
  "isGrouper iface n =
     (omitgroupers iface \<and>
      (''True'' \<in> set (grouponly (attrs n)) \<or> interfacetype iface \<in> set (grouponly (attrs n))))"

text \<open>
  \<^verbatim>\<open>getChildCount\<close> and \<^verbatim>\<open>getChildren\<close>: the assertion on \<^verbatim>\<open>node.isValid()\<close>, then the loop over
  \<^verbatim>\<open>node.children\<close> with its accumulator.
\<close>

fun getChildCount :: "('v, 'x) interface_scheme \<Rightarrow> node \<Rightarrow> error + nat"
and getChildCount_loop :: "('v, 'x) interface_scheme \<Rightarrow> node list \<Rightarrow> nat \<Rightarrow> error + nat" where
  "getChildCount iface (Node a chs) =
     (if \<not> valid a then Inl AssertionError else getChildCount_loop iface chs 0)"
| "getChildCount_loop iface [] childcount = Inr childcount"
| "getChildCount_loop iface (child # rest) childcount =
     (if visible (attrs child) \<or> showhidden iface then
        (if isGrouper iface child then
           (case getChildCount iface child of
              Inl e \<Rightarrow> Inl e
            | Inr n \<Rightarrow> getChildCount_loop iface rest (childcount + n))
         else getChildCount_loop iface rest (childcount + 1))
      else getChildCount_loop iface rest childcount)"

fun getChildren :: "('v, 'x) interface_scheme \<Rightarrow> node \<Rightarrow> error + node list"
and getChildren_loop :: "('v, 'x) interface_scheme \<Rightarrow> node list \<Rightarrow> node list \<Rightarrow> error + node list" where
  "getChildren iface (Node a chs) =
     (if \<not> valid a then Inl AssertionError else getChildren_loop iface chs [])"
| "getChildren_loop iface [] res = Inr res"
| "getChildren_loop iface (child # rest) res =
     (if visible (attrs child) \<or> showhidden iface then
        (if isGrouper iface child then
           (case getChildren iface child of
              Inl e \<Rightarrow> Inl e
            | Inr cs \<Rightarrow> getChildren_loop iface rest (res @ cs))
         else getChildren_loop iface rest (res @ [child]))
      else getChildren_loop iface rest res)"

text \<open>A node none of whose descendants has been destroyed.\<close>

fun all_valid :: "node \<Rightarrow> bool" where
  "all_valid (Node a chs) = (valid a \<and> list_all all_valid chs)"

section \<open>Numbers as text\<close>

text \<open>
  The white space that \<^verbatim>\<open>int()\<close> strips: space, tab to carriage return, the separators
  U+001C to U+001F, next line U+0085 and no-break space U+00A0.
\<close>

definition is_space :: "char \<Rightarrow> bool" where
  "is_space c = (c \<in> set [CHR '' '', CHR 0x09, CHR 0x0A, CHR 0x0B, CHR 0x0C, CHR 0x0D,
                           CHR 0x1C, CHR 0x1D, CHR 0x1E, CHR 0x1F, CHR 0x85, CHR 0xA0])"

definition strip :: "string \<Rightarrow> string" where
  "strip s = rev (dropWhile is_space (rev (dropWhile is_space s)))"

text \<open>
  The digits of a Python integer literal: decimal digits, with single underscores allowed
  between digits.
\<close>

fun digit_groups :: "string \<Rightarrow> bool" where
  "digit_groups [] = False"
| "digit_groups [c] = is_digit c"
| "digit_groups (c # d # cs) =
     (is_digit c \<and> (if d = CHR ''_'' then digit_groups cs else digit_groups (d # cs)))"

definition digits_int :: "string \<Rightarrow> int option" where
  "digits_int s =
     (if digit_groups s then Some (int (nat_of_digits (filter (\<lambda>c. c \<noteq> CHR ''_'') s))) else None)"

text \<open>
  \<^verbatim>\<open>int(s)\<close>: surrounding white space, an optional sign, digits; \<open>None\<close> is
  \<^verbatim>\<open>ValueError\<close>.
\<close>

definition py_int :: "string \<Rightarrow> int option" where
  "py_int s =
     (case strip s of
        [] \<Rightarrow> None
      | c # cs \<Rightarrow>
          if c = CHR ''-'' then map_option uminus (digits_int cs)
          else if c = CHR ''+'' then digits_int cs
          else digits_int (c # cs))"

text \<open>The decimal text of a number, as \<^verbatim>\<open>%i\<close> and \<^verbatim>\<open>str\<close> print it.\<close>

definition digit_char :: "nat \<Rightarrow> char" where
  "digit_char d = char_of (48 + d)"

function show_nat :: "nat \<Rightarrow> string" where
  "show_nat n = (if n < 10 then [digit_char n] else show_nat (n div 10) @ [digit_char (n mod 10)])"
  by pat_completeness auto
termination
  by (relation "measure id") auto

declare show_nat.simps [simp del]

definition show_int :: "int \<Rightarrow> string" where
  "show_int i = (if i < 0 then CHR ''-'' # show_nat (nat (- i)) else show_nat (nat i))"

section \<open>Operations on the value document\<close>

text \<open>
  \<^verbatim>\<open>parent.removeChild(child)\<close>: minidom removes the child from \<^verbatim>\<open>parent.childNodes\<close> (its
  first occurrence; \<^verbatim>\<open>xml.dom.NotFoundErr\<close> when it is not there) and clears
  \<^verbatim>\<open>child.parentNode\<close>.
\<close>

definition removeChild :: "heap \<Rightarrow> addr \<Rightarrow> addr \<Rightarrow> error + heap" where
  "removeChild h parent child =
     (case h parent of
        None \<Rightarrow> Inl AttributeError
      | Some d \<Rightarrow>
          if child \<notin> set (domchildren d) then Inl NotFoundErr
          else
            (let h1 = h(parent \<mapsto> d\<lparr>domchildren := remove1 child (domchildren d)\<rparr>)
             in case h1 child of
                  None \<Rightarrow> Inl AttributeError
                | Some c \<Rightarrow> Inr (h1(child \<mapsto> c\<lparr>parentNode := None\<rparr>))))"

fun removeChildren :: "heap \<Rightarrow> addr \<Rightarrow> addr list \<Rightarrow> error + heap" where
  "removeChildren h parent [] = Inr h"
| "removeChildren h parent (vch # rest) =
     (case removeChild h parent vch of
        Inl e \<Rightarrow> Inl e
      | Inr h' \<Rightarrow> removeChildren h' parent rest)"

text \<open>
  The dictionary \<^verbatim>\<open>valuechildren\<close> of \<^verbatim>\<open>Node.__init__\<close>: for each tag the child elements of
  the value root with that tag, in document order; the keys are in order of first occurrence.
\<close>

type_synonym valuechildren = "(string \<times> addr list) list"

definition setdefault_append :: "valuechildren \<Rightarrow> string \<Rightarrow> addr \<Rightarrow> valuechildren" where
  "setdefault_append d k a =
     (if k \<in> fst ` set d then map (\<lambda>(k', as). if k' = k then (k', as @ [a]) else (k', as)) d
      else d @ [(k, [a])])"

fun build_valuechildren :: "heap \<Rightarrow> addr list \<Rightarrow> valuechildren \<Rightarrow> error + valuechildren" where
  "build_valuechildren h [] d = Inr d"
| "build_valuechildren h (ch # rest) d =
     (case h ch of
        None \<Rightarrow> Inl AttributeError
      | Some c \<Rightarrow>
          if nodeType c = ELEMENT_NODE
          then build_valuechildren h rest (setdefault_append d (tagName c) ch)
          else build_valuechildren h rest d)"

text \<open>\<^verbatim>\<open>d.pop(key, default)\<close>: the value and the dictionary without the key.\<close>

definition dict_pop :: "('k \<times> 'a) list \<Rightarrow> 'k \<Rightarrow> 'a \<Rightarrow> 'a \<times> ('k \<times> 'a) list" where
  "dict_pop d k dflt =
     (case map_of d k of
        None \<Rightarrow> (dflt, d)
      | Some v \<Rightarrow> (v, filter (\<lambda>kv. fst kv \<noteq> k) d))"

section \<open>Data types (module \<^verbatim>\<open>datatypes\<close>)\<close>

text \<open>
  The module with the data type classes is not among the sources, so the operations the
  store calls are parameters. A class is named by the schema's \<^verbatim>\<open>type\<close> attribute;
  \<open>known_type\<close> is \<^verbatim>\<open>getDataType(name) is not None\<close>; \<open>class_is_simple\<close> is the test
  \<^verbatim>\<open>isinstance(cls, datatypes.DataTypeSimple)\<close> that \<^verbatim>\<open>Node.__init__\<close> makes on the class.
  \<open>dt_load\<close> and \<open>dt_save\<close> read and write the value element they are handed; the
  session context they also receive is not modelled. Values are compared with HOL equality.
\<close>

record 'v dtypes =
  known_type :: "string \<Rightarrow> bool"
  class_is_simple :: "string \<Rightarrow> bool"
  dt_isinstance :: "string \<Rightarrow> 'v \<Rightarrow> bool"
  dt_construct :: "string \<Rightarrow> 'v \<Rightarrow> error + 'v"
  dt_load :: "string \<Rightarrow> domnode \<Rightarrow> xml \<Rightarrow> error + 'v option"
  dt_save :: "'v \<Rightarrow> domnode \<Rightarrow> domnode \<times> bool"
  dt_fromXmlString :: "'v \<Rightarrow> string \<Rightarrow> xml \<Rightarrow> error + 'v"
  dt_toPrettyString :: "'v \<Rightarrow> string"
  dt_less :: "'v \<Rightarrow> 'v \<Rightarrow> bool"
  dt_hasExpensiveValidate :: "'v \<Rightarrow> bool"
  dt_validate :: "'v \<Rightarrow> xml \<Rightarrow> bool"
  dt_is_simple_value :: "'v \<Rightarrow> bool"

text \<open>
  \<^verbatim>\<open>getValueType(returnclass=True)\<close>: \<^verbatim>\<open>None\<close> for a node without type, else the class, with
  the assertion of \<^verbatim>\<open>getDataType\<close> that the name is known.
\<close>

definition getValueType_class :: "'v dtypes \<Rightarrow> xml \<Rightarrow> error + string option" where
  "getValueType_class dts t =
     (let valuetype = getAttribute t ''type'' in
      if valuetype = [] then Inr None
      else if known_type dts valuetype then Inr (Some valuetype)
      else Inl AssertionError)"

section \<open>Construction of the node tree (\<^verbatim>\<open>Node.__init__\<close>)\<close>

text \<open>
  What \<^verbatim>\<open>Node.__init__\<close> prints, by format string, with the arguments of the format:
  the location of the child, the number of value entries found and the maximum for
  "number of children is greater than the imposed maximum"; the tag and the location for
  "was unexpected and will be ignored".
\<close>

datatype diagnostic =
    TooManyChildren "string list" nat int
  | UnexpectedValue string "string list"

text \<open>\<^verbatim>\<open>maxOccurs\<close> after parsing: the string \<^verbatim>\<open>'unbounded'\<close> or an integer.\<close>

datatype maxoccurs = Unbounded | Bounded int

text \<open>
  The attribute \<^verbatim>\<open>minOccurs\<close> as the constructor reads it: 1 when absent, else \<^verbatim>\<open>int(...)\<close>.
\<close>

definition read_minOccurs :: "xml \<Rightarrow> error + int" where
  "read_minOccurs templatechild =
     (let minoccurs = getAttribute templatechild ''minOccurs'' in
      if minoccurs = [] then Inr 1
      else (case py_int minoccurs of None \<Rightarrow> Inl ValueError | Some i \<Rightarrow> Inr i))"

definition read_maxOccurs :: "xml \<Rightarrow> error + maxoccurs" where
  "read_maxOccurs templatechild =
     (let maxoccurs = getAttribute templatechild ''maxOccurs'' in
      if maxoccurs = [] then Inr (Bounded 1)
      else if maxoccurs = ''unbounded'' then Inr Unbounded
      else (case py_int maxoccurs of None \<Rightarrow> Inl ValueError | Some i \<Rightarrow> Inr (Bounded i)))"

text \<open>
  The last loop of the constructor, over the value entries that no schema child has claimed.
  The test on the node's class is made in every round and ends the loop when it fails.
\<close>

fun remove_unexpected ::
  "'v dtypes \<Rightarrow> xml \<Rightarrow> addr option \<Rightarrow> string list \<Rightarrow> valuechildren \<Rightarrow> heap \<Rightarrow> diagnostic list
     \<Rightarrow> error + heap \<times> diagnostic list" where
  "remove_unexpected dts t vroot loc [] h msgs = Inr (h, msgs)"
| "remove_unexpected dts t vroot loc ((childid, childnodes) # rest) h msgs =
     (case getValueType_class dts t of
        Inl e \<Rightarrow> Inl e
      | Inr None \<Rightarrow> Inr (h, msgs)
      | Inr (Some cls) \<Rightarrow>
          if \<not> class_is_simple dts cls then Inr (h, msgs)
          else
            (case vroot of
               None \<Rightarrow> Inl AttributeError
             | Some vr \<Rightarrow>
                (case removeChildren h vr childnodes of
                   Inl e \<Rightarrow> Inl e
                 | Inr h' \<Rightarrow>
                     remove_unexpected dts t vroot loc rest h'
                       (msgs @ [UnexpectedValue childid loc]))))"

text \<open>
  The head of the constructor: the dictionary \<^verbatim>\<open>valuechildren\<close> of the child elements of
  the value root, empty when there is no value root.
\<close>

definition init_valuechildren :: "heap \<Rightarrow> addr option \<Rightarrow> error + valuechildren" where
  "init_valuechildren h vnode =
     (case vnode of
        None \<Rightarrow> Inr []
      | Some vr \<Rightarrow>
          (case h vr of
             None \<Rightarrow> Inl AttributeError
           | Some d \<Rightarrow> build_valuechildren h (domchildren d) []))"

text \<open>The two assertions on \<^verbatim>\<open>minOccurs\<close> and \<^verbatim>\<open>maxOccurs\<close>, after both have been read.\<close>

definition read_occurs :: "xml \<Rightarrow> error + int \<times> maxoccurs" where
  "read_occurs templatechild =
     (case read_minOccurs templatechild of
        Inl e \<Rightarrow> Inl e
      | Inr minoccurs \<Rightarrow>
         (case read_maxOccurs templatechild of
            Inl e \<Rightarrow> Inl e
          | Inr maxoccurs \<Rightarrow>
              if \<not> (maxoccurs = Bounded 1 \<or> minoccurs = 0) then Inl AssertionError
              else if \<not> (case maxoccurs of Unbounded \<Rightarrow> True | Bounded m \<Rightarrow> m \<ge> minoccurs)
                then Inl AssertionError
              else Inr (minoccurs, maxoccurs)))"

text \<open>
  "Redundant child nodes will be deleted": the value entries beyond \<^verbatim>\<open>maxOccurs\<close> are removed
  from the value root, after the message.
\<close>

definition remove_redundant ::
  "addr option \<Rightarrow> string list \<Rightarrow> addr list \<Rightarrow> maxoccurs \<Rightarrow> heap \<Rightarrow> diagnostic list
     \<Rightarrow> error + heap \<times> diagnostic list" where
  "remove_redundant vroot childloc curvaluechildren maxoccurs h msgs =
     (case maxoccurs of
        Unbounded \<Rightarrow> Inr (h, msgs)
      | Bounded m \<Rightarrow>
          if int (length curvaluechildren) > m then
            (case vroot of
               None \<Rightarrow> Inl AttributeError
             | Some vr \<Rightarrow>
                (case removeChildren h vr (drop (nat m) curvaluechildren) of
                   Inl e \<Rightarrow> Inl e
                 | Inr h' \<Rightarrow>
                     Inr (h', msgs @ [TooManyChildren childloc (length curvaluechildren) m])))
          else Inr (h, msgs))"

text \<open>
  The value entries handed to the child constructors: those found, then \<^verbatim>\<open>None\<close> for
  \<^verbatim>\<open>range(len(curvaluechildren),minoccurs)\<close>.
\<close>

definition with_placeholders :: "addr list \<Rightarrow> int \<Rightarrow> addr option list" where
  "with_placeholders curvaluechildren minoccurs =
     map Some curvaluechildren @ replicate (nat (minoccurs - int (length curvaluechildren))) None"

text \<open>
  One round of the loop over the schema children, up to the creation of the child nodes:
  the entries to build nodes for, the dictionary without them, the value document and the
  messages.
\<close>

definition prepare_child ::
  "xml \<Rightarrow> addr option \<Rightarrow> string list \<Rightarrow> valuechildren \<Rightarrow> heap \<Rightarrow> diagnostic list
     \<Rightarrow> error + addr option list \<times> valuechildren \<times> heap \<times> diagnostic list" where
  "prepare_child templatechild vroot loc valuechildren h msgs =
     (let childid = getAttribute templatechild ''name'';
          childloc = loc @ [childid];
          (curvaluechildren, valuechildren1) = dict_pop valuechildren childid []
      in case read_occurs templatechild of
           Inl e \<Rightarrow> Inl e
         | Inr (minoccurs, maxoccurs) \<Rightarrow>
            (case remove_redundant vroot childloc curvaluechildren maxoccurs h msgs of
               Inl e \<Rightarrow> Inl e
             | Inr (h1, msgs1) \<Rightarrow>
                 Inr (with_placeholders curvaluechildren minoccurs, valuechildren1, h1, msgs1)))"

text \<open>
  The tail of the constructor: a node that can have children as well as a value takes its
  value node from the entry that carries its own name; then the unclaimed entries are dealt
  with.
\<close>

definition own_valuenode ::
  "xml \<Rightarrow> addr option \<Rightarrow> string list \<Rightarrow> valuechildren \<Rightarrow> error + addr option \<times> valuechildren" where
  "own_valuenode t vnode loc valuechildren =
     (if child_elements t ''element'' \<noteq> [] \<and> hasAttribute t ''type'' then
        (if loc = [] then Inl IndexError
         else (case map_of valuechildren (last loc) of
                 None \<Rightarrow> Inr (None, valuechildren)
               | Some cur \<Rightarrow>
                   if \<not> length cur \<le> 1 then Inl AssertionError
                   else (case cur of
                           [] \<Rightarrow> Inl IndexError
                         | v # _ \<Rightarrow> Inr (Some v, snd (dict_pop valuechildren (last loc) [])))))
      else Inr (vnode, valuechildren))"

definition finish_node ::
  "'v dtypes \<Rightarrow> xml \<Rightarrow> addr option \<Rightarrow> string list \<Rightarrow> node list \<Rightarrow> valuechildren \<Rightarrow> heap
     \<Rightarrow> diagnostic list \<Rightarrow> error + node \<times> heap \<times> diagnostic list" where
  "finish_node dts t vnode loc chs valuechildren h msgs =
     (case own_valuenode t vnode loc valuechildren of
        Inl e \<Rightarrow> Inl e
      | Inr (own, valuechildren1) \<Rightarrow>
         (case remove_unexpected dts t vnode loc valuechildren1 h msgs of
            Inl e \<Rightarrow> Inl e
          | Inr (h1, msgs1) \<Rightarrow>
              Inr (Node \<lparr> valid = True, templatenode = t, valueroot = vnode, valuenode = own,
                           location = loc, visible = (getAttribute t ''hidden'' \<noteq> ''True''),
                           grouponly = str_split (CHR '';'') (getAttribute t ''grouponly'') \<rparr> chs,
                   h1, msgs1)))"

text \<open>
  The constructor. \<open>Node_init\<close> is \<^verbatim>\<open>Node(controller,templatenode,valuenode,location,parent)\<close>;
  it returns the new node, the value document after the removals, and what was printed.
  \<open>init_children\<close> is the loop over \<^verbatim>\<open>templatenode.childNodes\<close>, which carries the dictionary
  \<^verbatim>\<open>valuechildren\<close>; \<open>init_clones\<close> is the loop "create nodes for all value nodes found".
\<close>

function (sequential) Node_init ::
  "'v dtypes \<Rightarrow> xml \<Rightarrow> addr option \<Rightarrow> string list \<Rightarrow> heap \<Rightarrow> diagnostic list
     \<Rightarrow> error + node \<times> heap \<times> diagnostic list"
and init_children ::
  "'v dtypes \<Rightarrow> xml list \<Rightarrow> addr option \<Rightarrow> string list \<Rightarrow> valuechildren \<Rightarrow> heap \<Rightarrow> diagnostic list
     \<Rightarrow> error + node list \<times> valuechildren \<times> heap \<times> diagnostic list"
and init_clones ::
  "'v dtypes \<Rightarrow> xml \<Rightarrow> addr option list \<Rightarrow> string list \<Rightarrow> heap \<Rightarrow> diagnostic list
     \<Rightarrow> error + node list \<times> heap \<times> diagnostic list" where
  "Node_init dts (CharacterData s) vnode loc h msgs = Inl AttributeError"
| "Node_init dts (Element tag atts tchs) vnode loc h msgs =
     (if \<not> hasAttribute (Element tag atts tchs) ''name'' then Inl AssertionError
      else
       (case init_valuechildren h vnode of
          Inl e \<Rightarrow> Inl e
        | Inr valuechildren \<Rightarrow>
           (case init_children dts tchs vnode loc valuechildren h msgs of
              Inl e \<Rightarrow> Inl e
            | Inr (chs, valuechildren1, h1, msgs1) \<Rightarrow>
                finish_node dts (Element tag atts tchs) vnode loc chs valuechildren1 h1 msgs1)))"
| "init_children dts [] vroot loc valuechildren h msgs = Inr ([], valuechildren, h, msgs)"
| "init_children dts (templatechild # rest) vroot loc valuechildren h msgs =
     (if is_element templatechild \<and> localName templatechild = ''element'' then
        (case prepare_child templatechild vroot loc valuechildren h msgs of
           Inl e \<Rightarrow> Inl e
         | Inr (cur, valuechildren1, h1, msgs1) \<Rightarrow>
            (case init_clones dts templatechild cur
                    (loc @ [getAttribute templatechild ''name'']) h1 msgs1 of
               Inl e \<Rightarrow> Inl e
             | Inr (nodes, h2, msgs2) \<Rightarrow>
                (case init_children dts rest vroot loc valuechildren1 h2 msgs2 of
                   Inl e \<Rightarrow> Inl e
                 | Inr (chs, valuechildren2, h3, msgs3) \<Rightarrow>
                     Inr (nodes @ chs, valuechildren2, h3, msgs3))))
      else init_children dts rest vroot loc valuechildren h msgs)"
| "init_clones dts templatechild [] childloc h msgs = Inr ([], h, msgs)"
| "init_clones dts templatechild (valuechild # rest) childloc h msgs =
     (case Node_init dts templatechild valuechild childloc h msgs of
        Inl e \<Rightarrow> Inl e
      | Inr (n, h1, msgs1) \<Rightarrow>
         (case init_clones dts templatechild rest childloc h1 msgs1 of
            Inl e \<Rightarrow> Inl e
          | Inr (ns, h2, msgs2) \<Rightarrow> Inr (n # ns, h2, msgs2)))"
  by pat_completeness auto
termination
  by (relation "measures
        [\<lambda>x. case x of
            Inl (dts, t, vnode, loc, h, msgs) \<Rightarrow> 2 * size t
          | Inr (Inl (dts, tchs, vroot, loc, vc, h, msgs)) \<Rightarrow> 2 * size_list size tchs + 1
          | Inr (Inr (dts, tc, cur, loc, h, msgs)) \<Rightarrow> 2 * size tc + 1,
         \<lambda>x. case x of
            Inl _ \<Rightarrow> 0
          | Inr (Inl _) \<Rightarrow> 0
          | Inr (Inr (dts, tc, cur, loc, h, msgs)) \<Rightarrow> length cur]") auto

section \<open>Notions used to state the properties\<close>

text \<open>
  The locations in a tree are consistent when every child's location is its parent's
  location followed by the child's own name, as \<^verbatim>\<open>Node.__init__\<close> and \<^verbatim>\<open>addChild\<close> set them.
\<close>

fun wf_locations :: "node \<Rightarrow> bool" where
  "wf_locations (Node a chs) =
     list_all (\<lambda>c. location (attrs c) \<noteq> [] \<and> butlast (location (attrs c)) = location a
                    \<and> wf_locations c) chs"

text \<open>
  A name that \<^verbatim>\<open>getLocation\<close> reads as the name of a child: not empty, not a navigation step,
  without a slash, and not of the bracketed form that selects an occurrence.
\<close>

definition plain_name :: "string \<Rightarrow> bool" where
  "plain_name nm =
     (nm \<noteq> [] \<and> nm \<noteq> ''.'' \<and> nm \<noteq> ''..'' \<and> CHR ''/'' \<notin> set nm
      \<and> \<not> (endswith nm '']'' \<and> CHR ''['' \<in> set nm))"

text \<open>
  Along the position \<open>p\<close> below \<open>n\<close>, every node is the first of its siblings that carries
  its name, and the name is plain.
\<close>

fun first_named :: "node \<Rightarrow> pos \<Rightarrow> bool" where
  "first_named n [] = True"
| "first_named n (i # p) =
     (i < length (children n)
      \<and> plain_name (last (location (attrs (children n ! i))))
      \<and> list_all (\<lambda>c. last (location (attrs c)) \<noteq> last (location (attrs (children n ! i))))
           (take i (children n))
      \<and> first_named (children n ! i) p)"

section \<open>A sample store\<close>

text \<open>
  Modelled from the spec: an integer data type (the module \<^verbatim>\<open>datatypes\<close> is not among the
  sources). The spec asks of a scalar type that it parses from a string, compares and
  pretty-prints: the value is read from and written to the character data of the value
  element as decimal text, and saving reports whether the text changed. A class object is
  not an instance of \<^verbatim>\<open>DataTypeSimple\<close>.
\<close>

definition int_load :: "domnode \<Rightarrow> error + int option" where
  "int_load d = (case py_int (chardata d) of None \<Rightarrow> Inl ValueError | Some i \<Rightarrow> Inr (Some i))"

definition int_save :: "int \<Rightarrow> domnode \<Rightarrow> domnode \<times> bool" where
  "int_save v d = (d\<lparr>chardata := show_int v\<rparr>, chardata d \<noteq> show_int v)"

definition int_fromXmlString :: "string \<Rightarrow> error + int" where
  "int_fromXmlString s = (case py_int s of None \<Rightarrow> Inl ValueError | Some i \<Rightarrow> Inr i)"

definition dts_int :: "int dtypes" where
  "dts_int = \<lparr> known_type = (\<lambda>name. name = ''int''),
               class_is_simple = (\<lambda>cls. False),
               dt_isinstance = (\<lambda>cls v. True),
               dt_construct = (\<lambda>cls v. Inr v),
               dt_load = (\<lambda>cls d t. int_load d),
               dt_save = int_save,
               dt_fromXmlString = (\<lambda>v s t. int_fromXmlString s),
               dt_toPrettyString = show_int,
               dt_less = (\<lambda>v w. v < w),
               dt_hasExpensiveValidate = (\<lambda>v. False),
               dt_validate = (\<lambda>v t. True),
               dt_is_simple_value = (\<lambda>v. True) \<rparr>"

text \<open>
  A schema with a repeatable child \<open>a\<close>, a child \<open>b\<close> that must occur once, and a group
  \<open>g\<close> holding \<open>c\<close>; and a value document with two entries \<open>a\<close> and two entries \<open>b\<close>:
  \<^verbatim>\<open><root><a>1</a><b>2</b><a>3</a><b>4</b></root>\<close>.
\<close>

definition schema0 :: xml where
  "schema0 = Element ''element'' [(''name'', ''root'')]
     [ Element ''element'' [(''name'', ''a''), (''minOccurs'', ''0''),
                            (''maxOccurs'', ''unbounded''), (''type'', ''int'')] [],
       CharacterData '' '',
       Element ''element'' [(''name'', ''b''), (''type'', ''int'')] [],
       Element ''element'' [(''name'', ''g''), (''grouponly'', ''True'')]
          [Element ''element'' [(''name'', ''c''), (''type'', ''int'')] []] ]"

definition element0 :: "string \<Rightarrow> addr \<Rightarrow> addr list \<Rightarrow> string \<Rightarrow> domnode" where
  "element0 tag par chs txt =
     \<lparr> nodeType = ELEMENT_NODE, tagName = tag, domattrs = [], parentNode = Some par,
       domchildren = chs, chardata = txt \<rparr>"

definition heap0 :: heap where
  "heap0 = [0 \<mapsto> \<lparr> nodeType = DOCUMENT_NODE, tagName = [], domattrs = [], parentNode = None,
                    domchildren = [1], chardata = [] \<rparr>,
            1 \<mapsto> element0 ''root'' 0 [2, 3, 4, 5] [],
            2 \<mapsto> element0 ''a'' 1 [] ''1'',
            3 \<mapsto> element0 ''b'' 1 [] ''2'',
            4 \<mapsto> element0 ''a'' 1 [] ''3'',
            5 \<mapsto> element0 ''b'' 1 [] ''4'']"

definition built0 :: "error + node \<times> heap \<times> diagnostic list" where
  "built0 = Node_init dts_int schema0 (Some 1) [] heap0 []"

definition root0 :: node where
  "root0 = fst (projr built0)"

definition heap1 :: heap where
  "heap1 = fst (snd (projr built0))"

text \<open>An interface that hides hidden nodes and replaces groups by their children.\<close>

definition iface0 :: "int interface" where
  "iface0 = \<lparr> showhidden = False, omitgroupers = True, interfacetype = ''gui'',
              blockNotifyOfHiddenNodes = True, processDefaultChange = 0, connected = [],
              beforeChange = (\<lambda>node newvalue. True), upcomingvizchange = None \<rparr>"

text \<open>The names met along a position.\<close>

fun names_along :: "node \<Rightarrow> pos \<Rightarrow> string list" where
  "names_along n [] = []"
| "names_along n (i # p) = last (location (attrs (children n ! i))) # names_along (children n ! i) p"

text \<open>
  The value entries that match a schema child: the child elements of the value root that
  carry the child's name, in document order.
\<close>

definition matching_entries :: "heap \<Rightarrow> addr option \<Rightarrow> string \<Rightarrow> addr list" where
  "matching_entries h vroot name =
     (case vroot of
        None \<Rightarrow> []
      | Some vr \<Rightarrow>
          (case h vr of
             None \<Rightarrow> []
           | Some d \<Rightarrow>
               filter (\<lambda>ch. case h ch of
                               None \<Rightarrow> False
                             | Some c \<Rightarrow> nodeType c = ELEMENT_NODE \<and> tagName c = name)
                 (domchildren d)))"

text \<open>The children of a value element, none for an address that holds nothing.\<close>

definition children_of :: "heap \<Rightarrow> addr \<Rightarrow> addr list" where
  "children_of h a = (case h a of None \<Rightarrow> [] | Some d \<Rightarrow> domchildren d)"

text \<open>The schema children of a schema node: its child elements with the tag \<open>element\<close>.\<close>

definition schema_children :: "xml list \<Rightarrow> xml list" where
  "schema_children tchs = filter (\<lambda>ch. is_element ch \<and> localName ch = ''element'') tchs"

text \<open>The child nodes built for the schema child of a given name, below a node at \<open>loc\<close>.\<close>

definition nodes_named :: "string list \<Rightarrow> string \<Rightarrow> node list \<Rightarrow> node list" where
  "nodes_named loc name chs = filter (\<lambda>c. location (attrs c) = loc @ [name]) chs"

text \<open>
  The value document only loses children: every element keeps a subset of its children,
  without repetition if there was none.
\<close>

definition shrinks :: "heap \<Rightarrow> heap \<Rightarrow> bool" where
  "shrinks h h' =
     (\<forall>a d. h a = Some d \<longrightarrow>
        (\<exists>d'. h' a = Some d' \<and> set (domchildren d') \<subseteq> set (domchildren d)
              \<and> (distinct (domchildren d) \<longrightarrow> distinct (domchildren d'))))"

definition lookup :: "('k \<times> 'a list) list \<Rightarrow> 'k \<Rightarrow> 'a list" where
  "lookup d k = (case map_of d k of None \<Rightarrow> [] | Some v \<Rightarrow> v)"

definition msgs0 :: "diagnostic list" where
  "msgs0 = snd (snd (projr built0))"

text \<open>The schema children \<open>b\<close> and \<open>g\<close> of the sample schema, which declare no bound.\<close>

definition schema0_b :: xml where
  "schema0_b = Element ''element'' [(''name'', ''b''), (''type'', ''int'')] []"

definition schema0_g :: xml where
  "schema0_g = Element ''element'' [(''name'', ''g''), (''grouponly'', ''True'')]
                 [Element ''element'' [(''name'', ''c''), (''type'', ''int'')] []]"

text \<open>The schema child \<open>a\<close> of the sample schema, which declares both bounds.\<close>

definition schema0_a :: xml where
  "schema0_a = Element ''element'' [(''name'', ''a''), (''minOccurs'', ''0''),
                                    (''maxOccurs'', ''unbounded''), (''type'', ''int'')] []"

text \<open>
  A second schema, with finite bounds written out: \<open>d\<close> may occur up to two times, \<open>e\<close>
  exactly once, \<open>f\<close> up to two times; and a value document with three entries \<open>d\<close> and none
  of the others: \<^verbatim>\<open><root><d>1</d><d>2</d><d>3</d></root>\<close>.
\<close>

definition schema2_d :: xml where
  "schema2_d = Element ''element'' [(''name'', ''d''), (''minOccurs'', ''0''),
                                    (''maxOccurs'', ''2''), (''type'', ''int'')] []"

definition schema2_e :: xml where
  "schema2_e = Element ''element'' [(''name'', ''e''), (''minOccurs'', ''1''),
                                    (''maxOccurs'', ''1''), (''type'', ''int'')] []"

definition schema2_f :: xml where
  "schema2_f = Element ''element'' [(''name'', ''f''), (''minOccurs'', ''0''),
                                    (''maxOccurs'', ''2''), (''type'', ''int'')] []"

definition schema2 :: xml where
  "schema2 = Element ''element'' [(''name'', ''root'')] [schema2_d, schema2_e, schema2_f]"

definition heap3 :: heap where
  "heap3 = [0 \<mapsto> \<lparr> nodeType = DOCUMENT_NODE, tagName = [], domattrs = [], parentNode = None,
                    domchildren = [1], chardata = [] \<rparr>,
            1 \<mapsto> element0 ''root'' 0 [2, 3, 4] [],
            2 \<mapsto> element0 ''d'' 1 [] ''1'',
            3 \<mapsto> element0 ''d'' 1 [] ''2'',
            4 \<mapsto> element0 ''d'' 1 [] ''3'']"

definition built2 :: "error + node \<times> heap \<times> diagnostic list" where
  "built2 = Node_init dts_int schema2 (Some 1) [] heap3 []"

definition root2 :: node where
  "root2 = fst (projr built2)"

definition heap4 :: heap where
  "heap4 = fst (snd (projr built2))"

definition diag2 :: "diagnostic list" where
  "diag2 = snd (snd (projr built2))"

text \<open>
  A third schema, whose one child carries a name with a slash, and a value document with
  an empty root element.
\<close>

definition schema3 :: xml where
  "schema3 = Element ''element'' [(''name'', ''root'')]
     [Element ''element'' [(''name'', ''x/y''), (''type'', ''int'')] []]"

definition heap5 :: heap where
  "heap5 = [0 \<mapsto> \<lparr> nodeType = DOCUMENT_NODE, tagName = [], domattrs = [], parentNode = None,
                    domchildren = [1], chardata = [] \<rparr>,
            1 \<mapsto> element0 ''root'' 0 [] []]"

definition built3 :: "error + node \<times> heap \<times> diagnostic list" where
  "built3 = Node_init dts_int schema3 (Some 1) [] heap5 []"

definition root3 :: node where
  "root3 = fst (projr built3)"

definition heap6 :: heap where
  "heap6 = fst (snd (projr built3))"

text \<open>The value document only loses children and the messages only grow.\<close>

definition grows :: "heap \<times> diagnostic list \<Rightarrow> heap \<times> diagnostic list \<Rightarrow> bool" where
  "grows s s' = (shrinks (fst s) (fst s') \<and> (\<exists>ms. snd s' = snd s @ ms))"

section \<open>The store (class TypedStore)\<close>

text \<open>
  Every call of an event handler of an interface is recorded, with the index of the
  interface in \<^verbatim>\<open>store.interfaces\<close> and the arguments of the call.
\<close>

datatype 'v event =
    BeforeChange nat pos "'v option"
  | AfterChange nat pos string
  | BeforeVisibilityChange nat "node list" bool bool
  | AfterVisibilityChange nat "node list" bool bool

text \<open>
  The part of a store that its methods change: the node tree, the value document (with the
  next free address, for \<^verbatim>\<open>createElementNS\<close>), the attached interfaces, the \<^verbatim>\<open>changed\<close> flag,
  the validation history and the record of the handler calls.
\<close>

record 'v state =
  root :: node
  xmldocument :: heap
  nextaddr :: addr
  interfaces :: "'v interface list"
  blockedinterfaces :: "nat set"
  changed :: bool
  validnodes :: "pos set"
  events :: "'v event list"

text \<open>
  A store with its default store and the other stores that conditions may name. The default
  store is consulted and never changed by the store that uses it, so it is a part of it.
\<close>

datatype 'v store =
  Store (state: "'v state") (defaultstore: "'v store option")
        (otherstores: "(string \<times> 'v store) list")

definition lookup_node :: "node \<Rightarrow> pos \<Rightarrow> error + node" where
  "lookup_node r p = (case node_at r p of None \<Rightarrow> Inl AttributeError | Some n \<Rightarrow> Inr n)"

text \<open>\<^verbatim>\<open>node.parent\<close>: \<open>None\<close> for the root.\<close>

definition parent :: "pos \<Rightarrow> pos option" where
  "parent p = (if p = [] then None else Some (butlast p))"

subsection \<open>Children by number and by id\<close>

text \<open>
  \<^verbatim>\<open>getChildByNumber(childname,index)\<close> and \<^verbatim>\<open>getChildById(childname,id)\<close> with \<^verbatim>\<open>create=False\<close>:
  the loops over \<^verbatim>\<open>self.children\<close>; \<open>i\<close> is the index of the child looked at.
\<close>

fun getChildByNumber ::
  "node list \<Rightarrow> string \<Rightarrow> nat \<Rightarrow> nat \<Rightarrow> nat \<Rightarrow> error + nat option" where
  "getChildByNumber [] childname index i curindex = Inr None"
| "getChildByNumber (child # rest) childname index i curindex =
     (case getId child of
        Inl e \<Rightarrow> Inl e
      | Inr name \<Rightarrow>
          if name = childname then
            (if curindex = index then Inr (Some i)
             else getChildByNumber rest childname index (i + 1) (curindex + 1))
          else getChildByNumber rest childname index (i + 1) curindex)"

fun getChildById ::
  "heap \<Rightarrow> node list \<Rightarrow> string \<Rightarrow> string \<Rightarrow> nat \<Rightarrow> error + nat option" where
  "getChildById h [] childname ident i = Inr None"
| "getChildById h (child # rest) childname ident i =
     (case getId child of
        Inl e \<Rightarrow> Inl e
      | Inr name \<Rightarrow>
          if name = childname then
            (case getSecondaryId h child of
               Inl e \<Rightarrow> Inl e
             | Inr sid \<Rightarrow>
                 if sid = ident then Inr (Some i)
                 else getChildById h rest childname ident (i + 1))
          else getChildById h rest childname ident (i + 1))"

subsection \<open>Mapping a node to the default store\<close>

text \<open>
  The first loop of \<^verbatim>\<open>mapForeignNode\<close> finds, for one ancestor of the foreign node, what
  identifies it below its parent: number 0 if it cannot be repeated, else its secondary id,
  else its number among the siblings of its name
  (\<^verbatim>\<open>currentnode.parent.getLocationMultiple([name])\<close>). For the empty name
  \<^verbatim>\<open>getLocationMultiple\<close> returns the parent alone, in which the node is not found.
\<close>

fun count_named :: "node list \<Rightarrow> string \<Rightarrow> error + nat" where
  "count_named [] name = Inr 0"
| "count_named (sib # rest) name =
     (case getId sib of
        Inl e \<Rightarrow> Inl e
      | Inr nm \<Rightarrow>
         (case count_named rest name of
            Inl e \<Rightarrow> Inl e
          | Inr k \<Rightarrow> Inr (if nm = name then Suc k else k)))"

definition sibling_number :: "node \<Rightarrow> pos \<Rightarrow> string \<Rightarrow> error + nat" where
  "sibling_number r p name =
     (case parent p of
        None \<Rightarrow> Inl AttributeError
      | Some pp \<Rightarrow>
         (case lookup_node r pp of
            Inl e \<Rightarrow> Inl e
          | Inr par \<Rightarrow>
             if name = [] then Inl AssertionError
             else
             (case count_named (children par) name of
                Inl e \<Rightarrow> Inl e
              | Inr nsiblings \<Rightarrow>
                 (case lookup_node r p of
                    Inl e \<Rightarrow> Inl e
                  | Inr n \<Rightarrow>
                      if getId n \<noteq> Inr name then Inl AssertionError
                      else count_named (take (last p) (children par)) name))))"

definition foreign_index :: "heap \<Rightarrow> node \<Rightarrow> pos \<Rightarrow> string \<Rightarrow> error + secid" where
  "foreign_index h r p name =
     (case lookup_node r p of
        Inl e \<Rightarrow> Inl e
      | Inr currentnode \<Rightarrow>
          if \<not> canHaveClones currentnode then Inr (SecInt 0)
          else
            (case getSecondaryId h currentnode of
               Inl e \<Rightarrow> Inl e
             | Inr index \<Rightarrow>
                 if index = [] then map_sum id SecInt (sibling_number r p name)
                 else Inr (SecStr index)))"

text \<open>
  The loop over \<^verbatim>\<open>reversed(foreignnode.location)\<close>; \<open>currentnode\<close> is \<open>None\<close> once the walk has
  left the root.
\<close>

fun foreign_indices ::
  "heap \<Rightarrow> node \<Rightarrow> pos option \<Rightarrow> string list \<Rightarrow> secid list \<Rightarrow> error + secid list \<times> pos option" where
  "foreign_indices h r currentnode [] indices = Inr (indices, currentnode)"
| "foreign_indices h r currentnode (name # names) indices =
     (case currentnode of
        None \<Rightarrow> Inl AttributeError
      | Some p \<Rightarrow>
         (case foreign_index h r p name of
            Inl e \<Rightarrow> Inl e
          | Inr index \<Rightarrow> foreign_indices h r (parent p) names (index # indices)))"

text \<open>The second loop: down from the root of the own store, by number or by id.\<close>

fun own_path ::
  "heap \<Rightarrow> node \<Rightarrow> pos \<Rightarrow> (string \<times> secid) list \<Rightarrow> error + pos option" where
  "own_path h r currentnode [] = Inr (Some currentnode)"
| "own_path h r currentnode ((name, index) # rest) =
     (case lookup_node r currentnode of
        Inl e \<Rightarrow> Inl e
      | Inr n \<Rightarrow>
         (case (case index of
                  SecInt k \<Rightarrow> getChildByNumber (children n) name k 0 0
                | SecStr s \<Rightarrow> getChildById h (children n) name s 0) of
            Inl e \<Rightarrow> Inl e
          | Inr None \<Rightarrow> Inr None
          | Inr (Some i) \<Rightarrow> own_path h r (currentnode @ [i]) rest))"

text \<open>
  \<^verbatim>\<open>self.mapForeignNode(foreignnode)\<close>: \<open>fs\<close> is the state of the store the foreign node lives
  in, \<open>p\<close> its position there.
\<close>

definition mapForeignNode ::
  "('v, 'a) state_scheme \<Rightarrow> ('v, 'b) state_scheme \<Rightarrow> pos \<Rightarrow> error + pos option" where
  "mapForeignNode self fs p =
     (case lookup_node (root fs) p of
        Inl e \<Rightarrow> Inl e
      | Inr foreignnode \<Rightarrow>
         (case foreign_indices (xmldocument fs) (root fs) (Some p) (rev (location (attrs foreignnode))) [] of
            Inl e \<Rightarrow> Inl e
          | Inr (indices, currentnode) \<Rightarrow>
             (case currentnode of
                None \<Rightarrow> Inl AttributeError
              | Some q \<Rightarrow>
                  if parent q \<noteq> None then Inl AssertionError
                  else own_path (xmldocument self) (root self) []
                         (zip (location (attrs foreignnode)) indices))))"

subsection \<open>Reading values\<close>

text \<open>
  The value stored at the node itself, the first half of \<^verbatim>\<open>getValue\<close>: \<^verbatim>\<open>None\<close> without a
  value node, else what the class of the node loads from it. A node without type has the
  class \<^verbatim>\<open>None\<close>, on which \<^verbatim>\<open>load\<close> cannot be called.
\<close>

definition own_value :: "'v dtypes \<Rightarrow> ('v, 'a) state_scheme \<Rightarrow> node \<Rightarrow> error + 'v option" where
  "own_value dts s n =
     (case valuenode (attrs n) of
        None \<Rightarrow> Inr None
      | Some a \<Rightarrow>
         (case getValueType_class dts (templatenode (attrs n)) of
            Inl e \<Rightarrow> Inl e
          | Inr None \<Rightarrow> Inl AttributeError
          | Inr (Some valuetype) \<Rightarrow>
             (case xmldocument s a of
                None \<Rightarrow> Inl AttributeError
              | Some d \<Rightarrow> dt_load dts valuetype d (templatenode (attrs n)))))"

text \<open>
  \<^verbatim>\<open>node.getValue(usedefault)\<close> for the node at \<open>p\<close> of the store, with \<^verbatim>\<open>getDefaultValue\<close>
  inlined: without an own value the node mapped into the default store is asked, with
  \<^verbatim>\<open>usedefault=True\<close>.
\<close>

function getValue :: "'v dtypes \<Rightarrow> 'v store \<Rightarrow> pos \<Rightarrow> bool \<Rightarrow> error + 'v option" where
  "getValue dts (Store s dflt others) p usedefault =
     (case lookup_node (root s) p of
        Inl e \<Rightarrow> Inl e
      | Inr n \<Rightarrow>
         (case own_value dts s n of
            Inl e \<Rightarrow> Inl e
          | Inr (Some v) \<Rightarrow> Inr (Some v)
          | Inr None \<Rightarrow>
              if \<not> usedefault then Inr None
              else
               (case dflt of
                  None \<Rightarrow> Inr None
                | Some ds \<Rightarrow>
                   (case mapForeignNode (state ds) s p of
                      Inl e \<Rightarrow> Inl e
                    | Inr None \<Rightarrow> Inr None
                    | Inr (Some q) \<Rightarrow> getValue dts ds q True))))"
  by pat_completeness auto
termination
  by (relation "measure (\<lambda>(dts, st, p, usedefault). size st)") auto

text \<open>\<^verbatim>\<open>hasValue\<close>.\<close>

definition hasValue :: "'v dtypes \<Rightarrow> 'v store \<Rightarrow> pos \<Rightarrow> error + bool" where
  "hasValue dts st p =
     (case lookup_node (root (state st)) p of
        Inl e \<Rightarrow> Inl e
      | Inr n \<Rightarrow>
          if valuenode (attrs n) = None then Inr False
          else map_sum id (\<lambda>value. value \<noteq> None) (getValue dts st p False))"

subsection \<open>Visibility\<close>

text \<open>
  \<^verbatim>\<open>isHidden\<close>: the walk from the node to the root, which stops at the first node that is
  not visible.
\<close>

function isHidden :: "node \<Rightarrow> pos \<Rightarrow> error + bool" where
  "isHidden r p =
     (case lookup_node r p of
        Inl e \<Rightarrow> Inl e
      | Inr n \<Rightarrow>
          if \<not> visible (attrs n) then Inr True
          else if p = [] then Inr False
          else isHidden r (butlast p))"
  by pat_completeness auto
termination
  by (relation "measure (\<lambda>(r, p). length p)") auto

declare isHidden.simps [simp del]

subsection \<open>Conditions\<close>

text \<open>
  The node that a condition of type \<^verbatim>\<open>eq\<close> or \<^verbatim>\<open>ne\<close> refers to, as \<^verbatim>\<open>checkCondition\<close> finds
  it: the path in the attribute \<^verbatim>\<open>variable\<close> is resolved from the root of the store that
  evaluates the condition when it starts with a slash, else from the parent of the owner
  node, in the owner's store. The result is the store the node lives in and its position.
\<close>

definition condition_target ::
  "'v store \<Rightarrow> xml \<Rightarrow> 'v store \<Rightarrow> pos \<Rightarrow> error + 'v store \<times> pos" where
  "condition_target self nodeCondition ownerstore ownernode =
     (if \<not> hasAttribute nodeCondition ''variable'' then Inl AssertionError
      else if \<not> hasAttribute nodeCondition ''value'' then Inl AssertionError
      else
       (let valuepath = getAttribute nodeCondition ''variable'' in
        if valuepath = [] then Inl IndexError
        else
         (case (if hd valuepath \<noteq> CHR ''/''
                then (case parent ownernode of
                        None \<Rightarrow> Inl TypeError
                      | Some pp \<Rightarrow> Inr (ownerstore, pp))
                else Inr (self, [])) of
            Inl e \<Rightarrow> Inl e
          | Inr (refstore, refnode) \<Rightarrow>
             (case getitem (xmldocument (state refstore)) (root (state refstore)) refnode valuepath of
                Inl e \<Rightarrow> Inl e
              | Inr None \<Rightarrow> Inl AssertionError
              | Inr (Some q) \<Rightarrow> Inr (refstore, q)))))"

text \<open>
  The branch of \<^verbatim>\<open>checkCondition\<close> for \<^verbatim>\<open>eq\<close> and \<^verbatim>\<open>ne\<close>: without a current value of the
  target, default included, the result is \<^verbatim>\<open>True\<close>; else the literal is parsed by the class
  of the current value and compared with it.
\<close>

definition check_comparison ::
  "'v dtypes \<Rightarrow> 'v store \<Rightarrow> xml \<Rightarrow> 'v store \<Rightarrow> pos \<Rightarrow> error + bool" where
  "check_comparison dts self nodeCondition ownerstore ownernode =
     (case condition_target self nodeCondition ownerstore ownernode of
        Inl e \<Rightarrow> Inl e
      | Inr (refstore, q) \<Rightarrow>
         (case getValue dts refstore q True of
            Inl e \<Rightarrow> Inl e
          | Inr None \<Rightarrow> Inr True
          | Inr (Some curvalue) \<Rightarrow>
              if \<not> dt_is_simple_value dts curvalue then Inl AssertionError
              else
               (case lookup_node (root (state refstore)) q of
                  Inl e \<Rightarrow> Inl e
                | Inr n \<Rightarrow>
                   (case dt_fromXmlString dts curvalue (getAttribute nodeCondition ''value'')
                           (templatenode (attrs n)) of
                      Inl e \<Rightarrow> Inl e
                    | Inr refvalue \<Rightarrow>
                        Inr (if getAttribute nodeCondition ''type'' = ''eq''
                             then curvalue = refvalue else curvalue \<noteq> refvalue)))))"

text \<open>
  \<^verbatim>\<open>self.checkCondition(nodeCondition,ownernode,ownstorename)\<close>. The owner node is given with
  the store it lives in. A condition with a \<^verbatim>\<open>source\<close> other than the store's own name is
  handed to the store of that name, and is met when there is none.
  \<open>checkCondition_children\<close> is the loop over the child conditions of \<^verbatim>\<open>and\<close> and \<^verbatim>\<open>or\<close>.
\<close>

function (sequential) checkCondition ::
  "'v dtypes \<Rightarrow> 'v store \<Rightarrow> xml \<Rightarrow> 'v store \<Rightarrow> pos \<Rightarrow> string option \<Rightarrow> error + bool"
and checkCondition_children ::
  "'v dtypes \<Rightarrow> 'v store \<Rightarrow> string \<Rightarrow> xml list \<Rightarrow> 'v store \<Rightarrow> pos \<Rightarrow> error + bool" where
  "checkCondition dts self (CharacterData s) ownerstore ownernode ownstorename = Inl AttributeError"
| "checkCondition dts self (Element tag atts chs) ownerstore ownernode ownstorename =
     (if \<not> hasAttribute (Element tag atts chs) ''type'' then Inl AssertionError
      else if getAttribute (Element tag atts chs) ''source'' \<noteq> []
              \<and> Some (getAttribute (Element tag atts chs) ''source'') \<noteq> ownstorename then
        (case map_of (otherstores self) (getAttribute (Element tag atts chs) ''source'') of
           None \<Rightarrow> Inr True
         | Some other \<Rightarrow>
             checkCondition dts other (Element tag atts chs) ownerstore ownernode
               (Some (getAttribute (Element tag atts chs) ''source'')))
      else if getAttribute (Element tag atts chs) ''type'' = ''eq''
              \<or> getAttribute (Element tag atts chs) ''type'' = ''ne'' then
        check_comparison dts self (Element tag atts chs) ownerstore ownernode
      else if getAttribute (Element tag atts chs) ''type'' = ''and''
              \<or> getAttribute (Element tag atts chs) ''type'' = ''or'' then
        checkCondition_children dts self (getAttribute (Element tag atts chs) ''type'') chs
          ownerstore ownernode
      else Inl PyException)"
| "checkCondition_children dts self condtype [] ownerstore ownernode =
     Inr (condtype = ''and'')"
| "checkCondition_children dts self condtype (ch # rest) ownerstore ownernode =
     (if is_element ch \<and> localName ch = ''condition'' then
        (case checkCondition dts self ch ownerstore ownernode None of
           Inl e \<Rightarrow> Inl e
         | Inr True \<Rightarrow>
             if condtype = ''or'' then Inr True
             else checkCondition_children dts self condtype rest ownerstore ownernode
         | Inr False \<Rightarrow>
             if condtype = ''and'' then Inr False
             else checkCondition_children dts self condtype rest ownerstore ownernode)
      else checkCondition_children dts self condtype rest ownerstore ownernode)"
  by pat_completeness auto
termination
  by (relation "measure (\<lambda>x. case x of
          Inl (dts, self, c, ownerstore, ownernode, ownstorename) \<Rightarrow>
            3 * size c + 1
              + (if getAttribute c ''source'' \<noteq> [] \<and> Some (getAttribute c ''source'') \<noteq> ownstorename
                 then 1 else 0)
        | Inr (dts, self, condtype, chs, ownerstore, ownernode) \<Rightarrow> 3 * size_list size chs)")
     auto

text \<open>
  The store in which a condition is evaluated: the store itself, or the other store that the
  attribute \<^verbatim>\<open>source\<close> names.
\<close>

definition evaluating_store :: "'v store \<Rightarrow> xml \<Rightarrow> string option \<Rightarrow> 'v store option" where
  "evaluating_store self nodeCondition ownstorename =
     (let src = getAttribute nodeCondition ''source'' in
      if src \<noteq> [] \<and> Some src \<noteq> ownstorename then map_of (otherstores self) src
      else Some self)"

text \<open>
  A second sample: a field \<open>mode\<close> and a field \<open>extra\<close> that is shown when \<open>mode\<close> is 1;
  the value document \<^verbatim>\<open><root/>\<close> holds no values, and there is no default store.
\<close>

definition cond1 :: xml where
  "cond1 = Element ''condition'' [(''type'', ''eq''), (''variable'', ''mode''), (''value'', ''1'')] []"

definition schema1 :: xml where
  "schema1 = Element ''element'' [(''name'', ''root'')]
     [ Element ''element'' [(''name'', ''mode''), (''type'', ''int'')]
         [Element ''dependentvariables'' []
            [Element ''dependentvariable'' [(''path'', ''extra''), (''type'', ''visibility'')] []]],
       Element ''element'' [(''name'', ''extra''), (''type'', ''int'')] [cond1] ]"

definition heap2 :: heap where
  "heap2 = [0 \<mapsto> \<lparr> nodeType = DOCUMENT_NODE, tagName = [], domattrs = [], parentNode = None,
                    domchildren = [1], chardata = [] \<rparr>,
            1 \<mapsto> element0 ''root'' 0 [] []]"

definition root1 :: node where
  "root1 = fst (projr (Node_init dts_int schema1 (Some 1) [] heap2 []))"

definition state1 :: "int state" where
  "state1 = \<lparr> root = root1, xmldocument = heap2, nextaddr = 2, interfaces = [],
              blockedinterfaces = {}, changed = False, validnodes = {}, events = [] \<rparr>"

definition store1 :: "int store" where
  "store1 = Store state1 None []"

section \<open>Methods that change the store\<close>

text \<open>
  A method that may change the store and may raise takes the store and returns its result,
  or the exception, together with the store as it is left: what was written before an
  exception stays written.
\<close>

type_synonym ('a, 'v) action = "'v store \<Rightarrow> (error + 'a) \<times> 'v store"

definition returnS :: "'a \<Rightarrow> ('a, 'v) action" where
  "returnS x = (\<lambda>st. (Inr x, st))"

definition raiseS :: "error \<Rightarrow> ('a, 'v) action" where
  "raiseS e = (\<lambda>st. (Inl e, st))"

definition bindS :: "('a, 'v) action \<Rightarrow> ('a \<Rightarrow> ('b, 'v) action) \<Rightarrow> ('b, 'v) action" where
  "bindS m f = (\<lambda>st. case m st of (Inl e, st') \<Rightarrow> (Inl e, st') | (Inr x, st') \<Rightarrow> f x st')"

text \<open>A computation that only reads the store.\<close>

definition readS :: "('v store \<Rightarrow> error + 'a) \<Rightarrow> ('a, 'v) action" where
  "readS f = (\<lambda>st. (f st, st))"

definition modifyS :: "('v state \<Rightarrow> 'v state) \<Rightarrow> (unit, 'v) action" where
  "modifyS f = (\<lambda>st. (Inr (), Store (f (state st)) (defaultstore st) (otherstores st)))"

text \<open>A \<^verbatim>\<open>for\<close> loop whose body returns nothing.\<close>

fun forS :: "'a list \<Rightarrow> ('a \<Rightarrow> (unit, 'v) action) \<Rightarrow> (unit, 'v) action" where
  "forS [] body = returnS ()"
| "forS (x # xs) body = bindS (body x) (\<lambda>_. forS xs body)"

text \<open>The record of a handler call.\<close>

definition emit :: "'v event \<Rightarrow> (unit, 'v) action" where
  "emit ev = modifyS (\<lambda>s. s\<lparr>events := events s @ [ev]\<rparr>)"

definition set_interface :: "nat \<Rightarrow> ('v interface \<Rightarrow> 'v interface) \<Rightarrow> (unit, 'v) action" where
  "set_interface i f = modifyS (\<lambda>s. s\<lparr>interfaces := (interfaces s)[i := f (interfaces s ! i)]\<rparr>)"

text \<open>A node's own fields are changed in place in the tree.\<close>

fun update_attrs :: "pos \<Rightarrow> (nodeattrs \<Rightarrow> nodeattrs) \<Rightarrow> node \<Rightarrow> node" where
  "update_attrs [] f (Node a chs) = Node (f a) chs"
| "update_attrs (i # p) f (Node a chs) =
     (if i < length chs then Node a (chs[i := update_attrs p f (chs ! i)]) else Node a chs)"

definition set_attrs :: "pos \<Rightarrow> (nodeattrs \<Rightarrow> nodeattrs) \<Rightarrow> (unit, 'v) action" where
  "set_attrs p f = modifyS (\<lambda>s. s\<lparr>root := update_attrs p f (root s)\<rparr>)"

definition the_node :: "pos \<Rightarrow> (node, 'v) action" where
  "the_node p = readS (\<lambda>st. lookup_node (root (state st)) p)"

subsection \<open>Notifications through an interface\<close>

text \<open>
  \<^verbatim>\<open>TypedStoreInterface.getParent\<close>: the nearest ancestor that the interface does not treat as
  a group. \<^verbatim>\<open>isGrouper(None)\<close> is \<^verbatim>\<open>False\<close> for an interface that keeps groups and an
  \<^verbatim>\<open>AttributeError\<close> for one that omits them.
\<close>

function getParent_loop :: "('v, 'x) interface_scheme \<Rightarrow> node \<Rightarrow> pos option \<Rightarrow> error + pos option" where
  "getParent_loop iface r None = (if omitgroupers iface then Inl AttributeError else Inr None)"
| "getParent_loop iface r (Some q) =
     (case lookup_node r q of
        Inl e \<Rightarrow> Inl e
      | Inr par \<Rightarrow>
          if isGrouper iface par then getParent_loop iface r (parent q) else Inr (Some q))"
  by pat_completeness auto
termination
  by (relation "measure (\<lambda>(iface, r, par). case par of None \<Rightarrow> 0 | Some q \<Rightarrow> Suc (length q))")
     (auto simp: parent_def split: if_splits)

definition getParent :: "('v, 'x) interface_scheme \<Rightarrow> node \<Rightarrow> pos \<Rightarrow> error + pos option" where
  "getParent iface r p =
     (case lookup_node r p of
        Inl e \<Rightarrow> Inl e
      | Inr n \<Rightarrow> if \<not> valid (attrs n) then Inl AssertionError else getParent_loop iface r (parent p))"

text \<open>\<^verbatim>\<open>x.isHidden()\<close> where \<open>x\<close> may be \<^verbatim>\<open>None\<close>.\<close>

definition isHidden_opt :: "node \<Rightarrow> pos option \<Rightarrow> error + bool" where
  "isHidden_opt r p = (case p of None \<Rightarrow> Inl AttributeError | Some q \<Rightarrow> isHidden r q)"

text \<open>
  \<^verbatim>\<open>TypedStoreInterface.onBeforeChange\<close>, for the interface number \<open>i\<close> of the store: whether
  the interface allows the change. The handler is asked only if one is connected and the
  node is not hidden from the interface.
\<close>

definition iface_onBeforeChange :: "nat \<Rightarrow> pos \<Rightarrow> 'v option \<Rightarrow> (bool, 'v) action" where
  "iface_onBeforeChange i p newvalue =
     bindS (the_node p) (\<lambda>n.
     if \<not> valid (attrs n) then raiseS AssertionError
     else bindS (readS (\<lambda>st. Inr (interfaces (state st) ! i))) (\<lambda>iface.
       if ''beforeChange'' \<notin> set (connected iface) then returnS True
       else bindS (readS (\<lambda>st. isHidden (root (state st)) p)) (\<lambda>hidden.
         if hidden \<and> blockNotifyOfHiddenNodes iface then returnS True
         else bindS (emit (BeforeChange i p newvalue)) (\<lambda>_.
              returnS (beforeChange iface p newvalue)))))"

text \<open>\<^verbatim>\<open>TypedStoreInterface.onChange\<close>.\<close>

definition iface_onChange :: "nat \<Rightarrow> pos \<Rightarrow> string \<Rightarrow> (unit, 'v) action" where
  "iface_onChange i p feature =
     bindS (the_node p) (\<lambda>n.
     if \<not> valid (attrs n) then raiseS AssertionError
     else bindS (readS (\<lambda>st. Inr (interfaces (state st) ! i))) (\<lambda>iface.
       if ''afterChange'' \<notin> set (connected iface) then returnS ()
       else bindS (readS (\<lambda>st. isHidden (root (state st)) p)) (\<lambda>hidden.
         if hidden \<and> blockNotifyOfHiddenNodes iface then returnS ()
         else emit (AfterChange i p feature))))"

text \<open>
  The common tail of \<^verbatim>\<open>beforeVisibilityChange\<close> and \<^verbatim>\<open>afterVisibilityChange\<close> of an interface,
  after the bookkeeping of \<^verbatim>\<open>upcomingvizchange\<close>: the handler, if connected, is called with
  the node, or with the children that stand for it when the node is a group, unless the
  node is hidden from the interface.
\<close>

definition iface_notify_visibility ::
  "string \<Rightarrow> (nat \<Rightarrow> node list \<Rightarrow> bool \<Rightarrow> bool \<Rightarrow> 'v event) \<Rightarrow> nat \<Rightarrow> pos \<Rightarrow> bool \<Rightarrow> bool
     \<Rightarrow> (unit, 'v) action" where
  "iface_notify_visibility eventname ev i p shownew showhide =
     bindS (readS (\<lambda>st. Inr (interfaces (state st) ! i))) (\<lambda>iface.
     if eventname \<notin> set (connected iface) then returnS ()
     else
      bindS (readS (\<lambda>st.
          if blockNotifyOfHiddenNodes iface
          then (case getParent iface (root (state st)) p of
                  Inl e \<Rightarrow> Inl e
                | Inr par \<Rightarrow> isHidden_opt (root (state st)) par)
          else Inr False)) (\<lambda>parenthidden.
      if parenthidden then returnS ()
      else
       bindS (readS (\<lambda>st.
           if blockNotifyOfHiddenNodes iface \<and> \<not> showhide then isHidden (root (state st)) p
           else Inr False)) (\<lambda>selfhidden.
       if selfhidden then returnS ()
       else
        bindS (the_node p) (\<lambda>n.
        if isGrouper iface n then
          bindS (readS (\<lambda>st. getChildren iface n)) (\<lambda>chs.
          if length chs = 0 then returnS () else emit (ev i chs shownew showhide))
        else emit (ev i [n] shownew showhide)))))"

definition iface_beforeVisibilityChange :: "nat \<Rightarrow> pos \<Rightarrow> bool \<Rightarrow> bool \<Rightarrow> (unit, 'v) action" where
  "iface_beforeVisibilityChange i p shownew showhide =
     bindS (the_node p) (\<lambda>n.
     if \<not> valid (attrs n) then raiseS AssertionError
     else bindS (set_interface i (\<lambda>iface. iface\<lparr>upcomingvizchange := Some p\<rparr>)) (\<lambda>_.
          iface_notify_visibility ''beforeVisibilityChange'' BeforeVisibilityChange
            i p shownew showhide))"

definition iface_afterVisibilityChange :: "nat \<Rightarrow> pos \<Rightarrow> bool \<Rightarrow> bool \<Rightarrow> (unit, 'v) action" where
  "iface_afterVisibilityChange i p shownew showhide =
     bindS (the_node p) (\<lambda>n.
     if \<not> valid (attrs n) then raiseS AssertionError
     else bindS (readS (\<lambda>st. Inr (interfaces (state st) ! i))) (\<lambda>iface.
       if upcomingvizchange iface \<noteq> Some p then raiseS AssertionError
       else bindS (set_interface i (\<lambda>iface. iface\<lparr>upcomingvizchange := None\<rparr>)) (\<lambda>_.
            iface_notify_visibility ''afterVisibilityChange'' AfterVisibilityChange
              i p shownew showhide)))"

subsection \<open>Notifications by the store\<close>

text \<open>The interfaces of the store that are not blocked, by number, in order.\<close>

definition active_interfaces :: "'v store \<Rightarrow> nat list" where
  "active_interfaces st =
     filter (\<lambda>i. i \<notin> blockedinterfaces (state st)) [0 ..< length (interfaces (state st))]"

text \<open>
  \<^verbatim>\<open>TypedStore.onBeforeChange\<close>: the interfaces are asked in order and the first that denies
  ends the loop.
\<close>

fun onBeforeChange_loop :: "nat list \<Rightarrow> pos \<Rightarrow> 'v option \<Rightarrow> (bool, 'v) action" where
  "onBeforeChange_loop [] p newvalue = returnS True"
| "onBeforeChange_loop (i # rest) p newvalue =
     bindS (iface_onBeforeChange i p newvalue) (\<lambda>allowed.
       if \<not> allowed then returnS False else onBeforeChange_loop rest p newvalue)"

definition onBeforeChange :: "pos \<Rightarrow> 'v option \<Rightarrow> (bool, 'v) action" where
  "onBeforeChange p newvalue = (\<lambda>st. onBeforeChange_loop (active_interfaces st) p newvalue st)"

definition beforeVisibilityChange :: "pos \<Rightarrow> bool \<Rightarrow> bool \<Rightarrow> (unit, 'v) action" where
  "beforeVisibilityChange p vis showhide =
     (\<lambda>st. forS (active_interfaces st) (\<lambda>i. iface_beforeVisibilityChange i p vis showhide) st)"

definition afterVisibilityChange :: "pos \<Rightarrow> bool \<Rightarrow> bool \<Rightarrow> (unit, 'v) action" where
  "afterVisibilityChange p vis showhide =
     (\<lambda>st. forS (active_interfaces st) (\<lambda>i. iface_afterVisibilityChange i p vis showhide) st)"

subsection \<open>Visibility updates and dependent nodes\<close>

text \<open>
  Modelled from the spec: \<^verbatim>\<open>util.findDescendantNode(node,[name])\<close> and
  \<^verbatim>\<open>util.findDescendantNodes(node,[name])\<close> (module \<^verbatim>\<open>util\<close> is not among the sources). The
  spec's schema document keeps the condition of an element and the reverse edges of the
  dependency index as child elements of the element: the first is the first child element
  of that name, \<^verbatim>\<open>None\<close> if there is none; the second is all of them, in document order.
\<close>

definition findDescendantNode :: "xml \<Rightarrow> string \<Rightarrow> xml option" where
  "findDescendantNode t name =
     (case child_elements t name of [] \<Rightarrow> None | ch # _ \<Rightarrow> Some ch)"

definition findDescendantNodes :: "xml \<Rightarrow> string \<Rightarrow> xml list" where
  "findDescendantNodes t name = child_elements t name"

text \<open>
  \<^verbatim>\<open>Node.updateVisibility()\<close> with its default arguments, as \<^verbatim>\<open>updateDependantNodes\<close> calls it:
  the condition of the node is evaluated and, when the result differs from the stored
  visibility, the flag is flipped between the two notifications.
\<close>

definition updateVisibility :: "'v dtypes \<Rightarrow> pos \<Rightarrow> (unit, 'v) action" where
  "updateVisibility dts p =
     bindS (the_node p) (\<lambda>n.
     case findDescendantNode (templatenode (attrs n)) ''condition'' of
       None \<Rightarrow> returnS ()
     | Some cond \<Rightarrow>
         bindS (readS (\<lambda>st. checkCondition dts st cond st p None)) (\<lambda>shownew.
         if shownew \<noteq> visible (attrs n) then
           bindS (beforeVisibilityChange p shownew True) (\<lambda>_.
           bindS (set_attrs p (\<lambda>a. a\<lparr>visible := shownew\<rparr>)) (\<lambda>_.
           afterVisibilityChange p shownew True))
         else returnS ()))"

text \<open>
  The node that a \<^verbatim>\<open>dependentvariable\<close> entry of the node at \<open>p\<close> names: its path is resolved
  from the parent of the node, or from the root when it starts with a slash.
\<close>

definition dependent_node :: "pos \<Rightarrow> xml \<Rightarrow> (pos, 'v) action" where
  "dependent_node p d =
     (let varpath = getAttribute d ''path'' in
      if varpath = [] then raiseS IndexError
      else
       (case (if hd varpath \<noteq> CHR ''/'' then parent p else Some []) of
          None \<Rightarrow> raiseS TypeError
        | Some refnode \<Rightarrow>
            bindS (readS (\<lambda>st. getitem (xmldocument (state st)) (root (state st)) refnode varpath))
              (\<lambda>varnode. case varnode of
                             None \<Rightarrow> raiseS AssertionError
                           | Some q \<Rightarrow> returnS q)))"

text \<open>
  \<^verbatim>\<open>TypedStore.onChange\<close> and \<^verbatim>\<open>TypedStore.updateDependantNodes\<close> call each other: a dependent
  of another kind than visibility is itself notified as changed. The first argument is the
  number of further nested calls of \<^verbatim>\<open>onChange\<close> that Python's recursion limit leaves; when
  it is used up, the next nested call raises \<^verbatim>\<open>RecursionError\<close>.
  \<open>build_depnodes\<close> is the first loop of \<^verbatim>\<open>updateDependantNodes\<close>, with the list \<^verbatim>\<open>depnodes\<close>;
  the second loop updates the visibility of the nodes in that list, in its order.
\<close>

function (sequential) onChange :: "'v dtypes \<Rightarrow> nat \<Rightarrow> pos \<Rightarrow> string \<Rightarrow> (unit, 'v) action"
and updateDependantNodes :: "'v dtypes \<Rightarrow> nat \<Rightarrow> pos \<Rightarrow> (unit, 'v) action"
and build_depnodes :: "'v dtypes \<Rightarrow> nat \<Rightarrow> pos \<Rightarrow> xml list \<Rightarrow> pos list \<Rightarrow> (pos list, 'v) action" where
  "onChange dts depth p feature =
     bindS (modifyS (\<lambda>s. s\<lparr>changed := True\<rparr>)) (\<lambda>_.
     bindS (\<lambda>st. forS (active_interfaces st) (\<lambda>i. iface_onChange i p feature) st) (\<lambda>_.
     updateDependantNodes dts depth p))"
| "updateDependantNodes dts depth p =
     bindS (the_node p) (\<lambda>n.
     case findDescendantNode (templatenode (attrs n)) ''dependentvariables'' of
       None \<Rightarrow> returnS ()
     | Some deps \<Rightarrow>
         bindS (build_depnodes dts depth p (findDescendantNodes deps ''dependentvariable'') [])
           (\<lambda>depnodes. forS depnodes (updateVisibility dts)))"
| "build_depnodes dts depth p [] depnodes = returnS depnodes"
| "build_depnodes dts depth p (d # ds) depnodes =
     bindS (dependent_node p d) (\<lambda>varnode.
     if getAttribute d ''type'' = ''visibility'' then
       bindS (the_node varnode) (\<lambda>vn.
       if visible (attrs vn) then build_depnodes dts depth p ds (depnodes @ [varnode])
       else build_depnodes dts depth p ds (varnode # depnodes))
     else
       (case depth of
          0 \<Rightarrow> raiseS RecursionError
        | Suc depth' \<Rightarrow>
            bindS (onChange dts depth' varnode (getAttribute d ''type'')) (\<lambda>_.
            build_depnodes dts depth p ds depnodes)))"
  by pat_completeness auto
termination
  by (relation "inv_image (less_than <*lex*> less_than <*lex*> less_than)
        (\<lambda>x. case x of
           Inl (dts, depth, p, feature) \<Rightarrow> (depth, 2, 0)
         | Inr (Inl (dts, depth, p)) \<Rightarrow> (depth, 1, 0)
         | Inr (Inr (dts, depth, p, ds, depnodes)) \<Rightarrow> (depth, 0, length ds))")
     auto

declare onChange.simps [simp del]

subsection \<open>Writing values\<close>

text \<open>
  A method that may also run forever returns nothing then: \<open>None\<close> is a call that does not
  return.
\<close>

type_synonym ('a, 'v) paction = "'v store \<Rightarrow> ((error + 'a) \<times> 'v store) option"

definition liftP :: "('a, 'v) action \<Rightarrow> ('a, 'v) paction" where
  "liftP m = (\<lambda>st. Some (m st))"

definition bindP :: "('a, 'v) paction \<Rightarrow> ('a \<Rightarrow> ('b, 'v) paction) \<Rightarrow> ('b, 'v) paction" where
  "bindP m f =
     (\<lambda>st. case m st of
             None \<Rightarrow> None
           | Some (Inl e, st') \<Rightarrow> Some (Inl e, st')
           | Some (Inr x, st') \<Rightarrow> f x st')"

text \<open>
  \<^verbatim>\<open>doc.createElementNS(namespaceURI,name)\<close>: a new element without parent, at the next free
  address of the value document. Namespaces are not modelled.
\<close>

definition createElement :: "string \<Rightarrow> (addr, 'v) action" where
  "createElement tag =
     bindS (readS (\<lambda>st. Inr (nextaddr (state st)))) (\<lambda>a.
     bindS (modifyS (\<lambda>s. s\<lparr>xmldocument := (xmldocument s)(a \<mapsto>
               \<lparr> nodeType = ELEMENT_NODE, tagName = tag, domattrs = [], parentNode = None,
                 domchildren = [], chardata = [] \<rparr>),
             nextaddr := Suc a\<rparr>)) (\<lambda>_.
     returnS a))"

text \<open>
  \<^verbatim>\<open>parent.appendChild(child)\<close>: minidom first removes the child from the parent it has, then
  appends it to \<^verbatim>\<open>parent.childNodes\<close> and sets \<^verbatim>\<open>child.parentNode\<close>.
\<close>

definition appendChild :: "heap \<Rightarrow> addr \<Rightarrow> addr \<Rightarrow> error + heap" where
  "appendChild h par child =
     (case h child of
        None \<Rightarrow> Inl AttributeError
      | Some c \<Rightarrow>
         (case (case parentNode c of None \<Rightarrow> Inr h | Some old \<Rightarrow> removeChild h old child) of
            Inl e \<Rightarrow> Inl e
          | Inr h1 \<Rightarrow>
             (case h1 par of
                None \<Rightarrow> Inl AttributeError
              | Some d \<Rightarrow>
                 (let h2 = h1(par \<mapsto> d\<lparr>domchildren := domchildren d @ [child]\<rparr>)
                  in case h2 child of
                       None \<Rightarrow> Inl AttributeError
                     | Some c2 \<Rightarrow> Inr (h2(child \<mapsto> c2\<lparr>parentNode := Some par\<rparr>))))))"

definition appendChildS :: "addr \<Rightarrow> addr \<Rightarrow> (unit, 'v) action" where
  "appendChildS par child =
     bindS (readS (\<lambda>st. appendChild (xmldocument (state st)) par child)) (\<lambda>h.
     modifyS (\<lambda>s. s\<lparr>xmldocument := h\<rparr>))"

text \<open>
  The first loop of \<^verbatim>\<open>createValueNode\<close>: the ancestors, the node itself included, that have no
  value root, the outermost first, and the value root of the nearest ancestor that has one.
  Above the root \<^verbatim>\<open>root.parent\<close> is \<^verbatim>\<open>None\<close>.
\<close>

function collect_parents :: "node \<Rightarrow> pos \<Rightarrow> pos list \<Rightarrow> error + pos list \<times> addr" where
  "collect_parents r q parents =
     (case lookup_node r q of
        Inl e \<Rightarrow> Inl e
      | Inr n \<Rightarrow>
         (case valueroot (attrs n) of
            Some vr \<Rightarrow> Inr (parents, vr)
          | None \<Rightarrow>
              if q = [] then Inl AttributeError
              else collect_parents r (butlast q) (q # parents)))"
  by pat_completeness auto
termination
  by (relation "measure (\<lambda>(r, q, parents). length q)") auto

declare collect_parents.simps [simp del]

text \<open>
  The second loop of \<^verbatim>\<open>createValueNode\<close>: \<^verbatim>\<open>while doc.parentNode is not None: doc=doc.parentNode\<close>.
  Nothing in the loop bounds the walk, so it is given a number of steps; \<open>None\<close> is a walk
  that has not ended within them.
\<close>

fun document_of :: "nat \<Rightarrow> heap \<Rightarrow> addr \<Rightarrow> (error + domnode) option" where
  "document_of 0 h a = None"
| "document_of (Suc fuel) h a =
     (case h a of
        None \<Rightarrow> Some (Inl AttributeError)
      | Some d \<Rightarrow>
         (case parentNode d of
            None \<Rightarrow> Some (Inr d)
          | Some q \<Rightarrow> document_of fuel h q))"

text \<open>
  The third loop of \<^verbatim>\<open>createValueNode\<close>: a value root is created for every ancestor that
  lacks one, each below the one before. The result is the last value root.
\<close>

fun create_valueroots :: "pos list \<Rightarrow> addr \<Rightarrow> (addr, 'v) action" where
  "create_valueroots [] vr = returnS vr"
| "create_valueroots (par # rest) vr =
     bindS (the_node par) (\<lambda>n.
     bindS (readS (\<lambda>st. getId n)) (\<lambda>name.
     bindS (createElement name) (\<lambda>a.
     bindS (set_attrs par (\<lambda>at. at\<lparr>valueroot := Some a\<rparr>)) (\<lambda>_.
     bindS (appendChildS vr a) (\<lambda>_.
     create_valueroots rest a)))))"

text \<open>
  The tail of \<^verbatim>\<open>createValueNode\<close>: a node that can have a value as well as children gets a
  value node of its own below its value root, any other node uses its value root.
\<close>

definition create_own_valuenode :: "pos \<Rightarrow> (unit, 'v) action" where
  "create_own_valuenode p =
     bindS (the_node p) (\<lambda>n.
     if canHaveValue n \<and> canHaveChildren n then
       (case valueroot (attrs n) of
          None \<Rightarrow> raiseS AttributeError
        | Some vr \<Rightarrow>
           bindS (readS (\<lambda>st. getId n)) (\<lambda>name.
           bindS (createElement name) (\<lambda>a.
           bindS (set_attrs p (\<lambda>at. at\<lparr>valuenode := Some a\<rparr>)) (\<lambda>_.
           appendChildS vr a))))
     else set_attrs p (\<lambda>at. at\<lparr>valuenode := valueroot at\<rparr>))"

text \<open>
  \<^verbatim>\<open>Node.createValueNode()\<close> with \<^verbatim>\<open>rootonly=False\<close>, for the node at \<open>p\<close>; \<open>fuel\<close> is the
  number of steps given to the walk to the document. The two closing assertions, that the
  value root and the value node are DOM nodes, hold of every address.
\<close>

definition createValueNode :: "nat \<Rightarrow> pos \<Rightarrow> (unit, 'v) paction" where
  "createValueNode fuel p =
     (\<lambda>st. case lookup_node (root (state st)) p of
             Inl e \<Rightarrow> Some (Inl e, st)
           | Inr n \<Rightarrow>
              if valuenode (attrs n) \<noteq> None then Some (Inr (), st)
              else if \<not> canHaveValue n then Some (Inl AssertionError, st)
              else
               (case collect_parents (root (state st)) p [] of
                  Inl e \<Rightarrow> Some (Inl e, st)
                | Inr (parents, vr) \<Rightarrow>
                   (case document_of fuel (xmldocument (state st)) vr of
                      None \<Rightarrow> None
                    | Some (Inl e) \<Rightarrow> Some (Inl e, st)
                    | Some (Inr doc) \<Rightarrow>
                       if nodeType doc \<noteq> DOCUMENT_NODE then Some (Inl AssertionError, st)
                       else Some (bindS (create_valueroots parents vr)
                                    (\<lambda>_. create_own_valuenode p) st))))"

text \<open>
  \<^verbatim>\<open>value.save(self.valuenode,context)\<close>: the data type writes the value element and reports
  whether it changed.
\<close>

definition save_value :: "'v dtypes \<Rightarrow> pos \<Rightarrow> 'v \<Rightarrow> (bool, 'v) action" where
  "save_value dts p v =
     bindS (the_node p) (\<lambda>n.
     case valuenode (attrs n) of
       None \<Rightarrow> raiseS AttributeError
     | Some a \<Rightarrow>
        bindS (readS (\<lambda>st. case xmldocument (state st) a of
                              None \<Rightarrow> Inl AttributeError
                            | Some d \<Rightarrow> Inr d)) (\<lambda>d.
        bindS (modifyS (\<lambda>s. s\<lparr>xmldocument := (xmldocument s)(a \<mapsto> fst (dt_save dts v d))\<rparr>)) (\<lambda>_.
        returnS (snd (dt_save dts v d)))))"

text \<open>
  \<^verbatim>\<open>Node.clearValue()\<close> with its default arguments (not recursive, read-only nodes not
  skipped): the result says whether the node is without value afterwards.
\<close>

definition clearValue :: "'v dtypes \<Rightarrow> nat \<Rightarrow> pos \<Rightarrow> (bool, 'v) action" where
  "clearValue dts depth p =
     bindS (the_node p) (\<lambda>n.
     case valuenode (attrs n) of
       None \<Rightarrow> returnS True
     | Some vn \<Rightarrow>
        if p = [] then returnS False
        else if canHaveClones n then returnS False
        else
         bindS (onBeforeChange p None) (\<lambda>allowed.
         if \<not> allowed then returnS False
         else
          bindS (readS (\<lambda>st.
              case xmldocument (state st) vn of
                None \<Rightarrow> Inl AttributeError
              | Some d \<Rightarrow>
                 (case parentNode d of
                    None \<Rightarrow> Inl AttributeError
                  | Some par \<Rightarrow> removeChild (xmldocument (state st)) par vn))) (\<lambda>h.
          bindS (modifyS (\<lambda>s. s\<lparr>xmldocument := h\<rparr>)) (\<lambda>_.
          bindS (set_attrs p (\<lambda>at. at\<lparr>valueroot := (if valueroot at = Some vn then None
                                                       else valueroot at),
                                      valuenode := None\<rparr>)) (\<lambda>_.
          bindS (onChange dts depth p ''value'') (\<lambda>_.
          returnS True))))))"

text \<open>
  \<^verbatim>\<open>Node.setValue(value)\<close> for the node at \<open>p\<close>. The result is \<open>None\<close> for Python's \<^verbatim>\<open>None\<close>,
  which the method returns after \<^verbatim>\<open>clearValue\<close>, else the flag \<^verbatim>\<open>changed\<close>. \<^verbatim>\<open>isinstance\<close> with
  the class \<^verbatim>\<open>None\<close> of a node without type is a \<^verbatim>\<open>TypeError\<close>.
\<close>

definition setValue ::
  "'v dtypes \<Rightarrow> nat \<Rightarrow> nat \<Rightarrow> pos \<Rightarrow> 'v option \<Rightarrow> (bool option, 'v) paction" where
  "setValue dts fuel depth p value =
     (case value of
        None \<Rightarrow> liftP (bindS (clearValue dts depth p) (\<lambda>_. returnS None))
      | Some v \<Rightarrow>
         bindP (liftP (the_node p)) (\<lambda>n.
         bindP (liftP (readS (\<lambda>st. own_value dts (state st) n))) (\<lambda>curval.
         if curval \<noteq> Some v then
           bindP (liftP (onBeforeChange p (Some v))) (\<lambda>allowed.
           if allowed then
             bindP (liftP (readS (\<lambda>st. getValueType_class dts (templatenode (attrs n)))))
               (\<lambda>cls. case cls of
                  None \<Rightarrow> liftP (raiseS TypeError)
                | Some valuetype \<Rightarrow>
                   bindP (liftP (if \<not> dt_isinstance dts valuetype v
                                 then readS (\<lambda>st. dt_construct dts valuetype v)
                                 else returnS v)) (\<lambda>v'.
                   bindP (if valuenode (attrs n) = None then createValueNode fuel p
                          else liftP (returnS ())) (\<lambda>_.
                   bindP (liftP (save_value dts p v')) (\<lambda>changed.
                   bindP (liftP (onChange dts depth p ''value'')) (\<lambda>_.
                   liftP (returnS (Some changed)))))))
           else liftP (returnS (Some False)))
         else liftP (returnS (Some False)))))"

text \<open>The store after further handler calls have been recorded, and nothing else.\<close>

definition with_events :: "'v store \<Rightarrow> 'v event list \<Rightarrow> 'v store" where
  "with_events st evs =
     Store ((state st)\<lparr>events := events (state st) @ evs\<rparr>) (defaultstore st) (otherstores st)"

text \<open>
  The first sample store with an interface whose handler \<^verbatim>\<open>beforeChange\<close> denies every
  change, and the same store without interface.
\<close>

definition iface_deny :: "int interface" where
  "iface_deny = \<lparr> showhidden = True, omitgroupers = False, interfacetype = ''gui'',
                  blockNotifyOfHiddenNodes = False, processDefaultChange = 0,
                  connected = [''beforeChange'', ''afterChange''],
                  beforeChange = (\<lambda>node newvalue. False), upcomingvizchange = None \<rparr>"

definition state0 :: "int state" where
  "state0 = \<lparr> root = root0, xmldocument = heap1, nextaddr = 6, interfaces = [],
              blockedinterfaces = {}, changed = False, validnodes = {}, events = [] \<rparr>"

definition store0 :: "int store" where
  "store0 = Store state0 None []"

definition store0_deny :: "int store" where
  "store0_deny = Store (state0\<lparr>interfaces := [iface_deny]\<rparr>) None []"

text \<open>
  The interface number \<open>i\<close> of the store denies the change of the node at \<open>p\<close> to the
  value \<open>newvalue\<close>: it is attached and not blocked, a handler \<^verbatim>\<open>beforeChange\<close> is connected
  to it, the node is not kept from it as a hidden node, and the handler answers no.
\<close>

definition denies :: "'v store \<Rightarrow> pos \<Rightarrow> 'v option \<Rightarrow> nat \<Rightarrow> bool" where
  "denies st p newvalue i =
     (i < length (interfaces (state st)) \<and> i \<notin> blockedinterfaces (state st)
      \<and> ''beforeChange'' \<in> set (connected (interfaces (state st) ! i))
      \<and> \<not> (isHidden (root (state st)) p = Inr True
            \<and> blockNotifyOfHiddenNodes (interfaces (state st) ! i))
      \<and> \<not> beforeChange (interfaces (state st) ! i) p newvalue)"

text \<open>
  \<^verbatim>\<open>setValue(value)\<close> on the node \<open>n\<close> at \<open>p\<close> gets as far as asking the interfaces: for a
  value, the current value is read and differs from it; for \<^verbatim>\<open>None\<close>, the node has a value
  node, is not the root and cannot be repeated.
\<close>

definition asks_interfaces :: "'v dtypes \<Rightarrow> 'v store \<Rightarrow> pos \<Rightarrow> node \<Rightarrow> 'v option \<Rightarrow> bool" where
  "asks_interfaces dts st p n value =
     (case value of
        Some v \<Rightarrow> (case own_value dts (state st) n of Inl e \<Rightarrow> False | Inr curval \<Rightarrow> curval \<noteq> Some v)
      | None \<Rightarrow> valuenode (attrs n) \<noteq> None \<and> p \<noteq> [] \<and> \<not> canHaveClones n)"

subsection \<open>The order of the visibility updates\<close>

text \<open>
  Stated from the spec's words ("processes currently-hidden nodes before currently-visible
  ones"), to be compared with \<open>build_depnodes\<close>: what the first loop of
  \<^verbatim>\<open>updateDependantNodes\<close> finds, in the order of the schema. Each visibility dependent is
  listed with the visibility it has when the loop reaches it; a dependent of another kind is
  notified as changed at that moment, as in the source, and is not listed.
\<close>

fun inspect_dependents ::
  "'v dtypes \<Rightarrow> nat \<Rightarrow> pos \<Rightarrow> xml list \<Rightarrow> ((pos \<times> bool) list, 'v) action" where
  "inspect_dependents dts depth p [] = returnS []"
| "inspect_dependents dts depth p (d # ds) =
     bindS (dependent_node p d) (\<lambda>varnode.
     if getAttribute d ''type'' = ''visibility'' then
       bindS (the_node varnode) (\<lambda>vn.
       bindS (inspect_dependents dts depth p ds) (\<lambda>found.
       returnS ((varnode, visible (attrs vn)) # found)))
     else
       (case depth of
          0 \<Rightarrow> raiseS RecursionError
        | Suc depth' \<Rightarrow>
            bindS (onChange dts depth' varnode (getAttribute d ''type'')) (\<lambda>_.
            inspect_dependents dts depth p ds)))"

text \<open>
  The order the spec asks for: the dependents found hidden, then those found visible. Among
  the hidden ones the source puts the one found last first.
\<close>

definition hidden_first :: "(pos \<times> bool) list \<Rightarrow> pos list" where
  "hidden_first found =
     map fst (rev (filter (\<lambda>x. \<not> snd x) found)) @ map fst (filter snd found)"

text \<open>
  A fourth sample: a field \<open>mode\<close> with the value 2 and two dependents, \<open>x\<close>, visible and
  shown when \<open>mode\<close> is 1, and \<open>y\<close>, hidden and shown when \<open>mode\<close> is 2; and an interface that
  is told of visibility changes.
\<close>

definition schema4_mode :: xml where
  "schema4_mode = Element ''element'' [(''name'', ''mode''), (''type'', ''int'')]
     [Element ''dependentvariables'' []
        [Element ''dependentvariable'' [(''path'', ''x''), (''type'', ''visibility'')] [],
         Element ''dependentvariable'' [(''path'', ''y''), (''type'', ''visibility'')] []]]"

definition schema4_x :: xml where
  "schema4_x = Element ''element'' [(''name'', ''x''), (''type'', ''int'')]
     [Element ''condition'' [(''type'', ''eq''), (''variable'', ''mode''), (''value'', ''1'')] []]"

definition schema4_y :: xml where
  "schema4_y = Element ''element'' [(''name'', ''y''), (''type'', ''int''), (''hidden'', ''True'')]
     [Element ''condition'' [(''type'', ''eq''), (''variable'', ''mode''), (''value'', ''2'')] []]"

definition schema4 :: xml where
  "schema4 = Element ''element'' [(''name'', ''root'')] [schema4_mode, schema4_x, schema4_y]"

definition heap7 :: heap where
  "heap7 = [0 \<mapsto> \<lparr> nodeType = DOCUMENT_NODE, tagName = [], domattrs = [], parentNode = None,
                    domchildren = [1], chardata = [] \<rparr>,
            1 \<mapsto> element0 ''root'' 0 [2] [],
            2 \<mapsto> element0 ''mode'' 1 [] ''2'']"

definition root4 :: node where
  "root4 = fst (projr (Node_init dts_int schema4 (Some 1) [] heap7 []))"

definition iface_viz :: "int interface" where
  "iface_viz = \<lparr> showhidden = True, omitgroupers = False, interfacetype = ''gui'',
                 blockNotifyOfHiddenNodes = False, processDefaultChange = 0,
                 connected = [''beforeVisibilityChange'', ''afterVisibilityChange''],
                 beforeChange = (\<lambda>node newvalue. True), upcomingvizchange = None \<rparr>"

definition store4 :: "int store" where
  "store4 = Store \<lparr> root = root4, xmldocument = heap7, nextaddr = 3, interfaces = [iface_viz],
                     blockedinterfaces = {}, changed = False, validnodes = {}, events = [] \<rparr>
              None []"

section \<open>Verified properties\<close>

subsection \<open>Version conversion router\<close>

lemma fic_sound:
  "route \<in> set (findIndirectConversion reg s t dis) \<Longrightarrow> route \<in> routes_avoiding reg s t (set dis)"
proof (induction reg s t dis arbitrary: route rule: findIndirectConversion.induct)
  case (1 reg s t dis)
  from "1.prems" obtain b where b: "b \<in> set (keys_from reg s)" "b \<notin> set (dis @ [s])"
    and r: "(b = t \<and> route = [s, b]) \<or> (b \<noteq> t \<and> (\<exists>cr. route = s # cr \<and> cr \<in> set (findIndirectConversion reg b t (dis @ [s]))))"
    by (subst (asm) findIndirectConversion.simps) (auto split: if_splits)
  from r show ?case
  proof
    assume "b = t \<and> route = [s, b]"
    with b show ?thesis by (auto simp: routes_avoiding_def)
  next
    assume a: "b \<noteq> t \<and> (\<exists>cr. route = s # cr \<and> cr \<in> set (findIndirectConversion reg b t (dis @ [s])))"
    then obtain cr where cr: "route = s # cr" "cr \<in> set (findIndirectConversion reg b t (dis @ [s]))" by blast
    have "cr \<in> routes_avoiding reg b t (set (dis @ [s]))"
      using "1.IH"[OF b(1) b(2) _ cr(2)] a by blast
    then obtain r' where r': "cr = b # r'" "r' \<noteq> []" "is_route reg (b # r')" "last r' = t" "distinct r'"
        "set r' \<inter> (set (dis @ [s]) \<union> {b}) = {}"
      by (auto simp: routes_avoiding_def)
    show ?thesis unfolding routes_avoiding_def cr r'
      using r' b by auto
  qed
qed

lemma fic_complete:
  "route \<in> routes_avoiding reg s t (set dis) \<Longrightarrow> route \<in> set (findIndirectConversion reg s t dis)"
proof (induction reg s t dis arbitrary: route rule: findIndirectConversion.induct)
  case (1 reg s t dis)
  from "1.prems" obtain b r' where rt: "route = s # b # r'" and
     p: "is_route reg (s # b # r')" "last (b # r') = t" "distinct (b # r')" "set (b # r') \<inter> (set dis \<union> {s}) = {}"
    by (auto simp: routes_avoiding_def neq_Nil_conv)
  have b: "b \<in> set (keys_from reg s)" "b \<notin> set (dis @ [s])" using p by auto
  show ?case
  proof (cases "b = t")
    case True
    with p have "r' = []" by (auto split: if_splits)
    with True b rt show ?thesis
      by (subst findIndirectConversion.simps) force
  next
    case False
    with p have ne: "r' \<noteq> []" by auto
    have "b # r' \<in> routes_avoiding reg b t (set (dis @ [s]))"
      using p ne unfolding routes_avoiding_def by auto
    then have "b # r' \<in> set (findIndirectConversion reg b t (dis @ [s]))"
      using "1.IH"[OF b False] by blast
    with False b rt show ?thesis
      by (subst findIndirectConversion.simps) force
  qed
qed

lemma routes_avoiding_simple: "routes_avoiding reg s t {} = {r. simple_route reg s t r}"
proof (rule set_eqI, rule iffI)
  fix x assume "x \<in> routes_avoiding reg s t {}"
  then obtain r where "x = s # r" "r \<noteq> []" "is_route reg (s # r)" "last r = t" "distinct r" "s \<notin> set r"
    unfolding routes_avoiding_def by auto
  then show "x \<in> {r. simple_route reg s t r}"
    unfolding simple_route_def by (cases r) auto
next
  fix x assume "x \<in> {r. simple_route reg s t r}"
  then have x: "2 \<le> length x" "hd x = s" "last x = t" "distinct x" "is_route reg x"
    unfolding simple_route_def by auto
  then obtain r where r: "x = s # r" "r \<noteq> []" by (cases x; cases "tl x") auto
  with x show "x \<in> routes_avoiding reg s t {}"
    unfolding routes_avoiding_def by auto
qed

lemma fic_set: "set (findIndirectConversion reg s t []) = {r. simple_route reg s t r}"
  using fic_sound[of _ reg s t "[]"] fic_complete[of _ reg s t "[]"] routes_avoiding_simple[of reg s t]
  by auto

lemma hd_sort_key_min:
  assumes "xs \<noteq> []"
  shows "hd (sort_key f xs) \<in> set xs \<and> (\<forall>y \<in> set xs. f (hd (sort_key f xs)) \<le> f y)"
proof -
  let ?ys = "sort_key f xs"
  have ne: "?ys \<noteq> []" using assms by (metis length_sort length_0_conv)
  have s: "sorted (map f ?ys)" by simp
  have "hd ?ys \<in> set ?ys" using ne by (rule hd_in_set)
  then have "hd ?ys \<in> set xs" by simp
  moreover have "\<forall>y \<in> set ?ys. f (hd ?ys) \<le> f y"
    using s ne by (cases ?ys) auto
  then have "\<forall>y \<in> set xs. f (hd ?ys) \<le> f y" by simp
  ultimately show ?thesis by blast
qed

lemma route_direct:
  "is_route reg r \<Longrightarrow> istep + 1 < length r \<Longrightarrow> \<exists>cls. direct reg (r ! istep) (r ! (istep + 1)) = Some cls"
proof (induction reg r arbitrary: istep rule: is_route.induct)
  case (3 reg a b rest)
  show ?case
  proof (cases istep)
    case 0
    from 3(2) have "b \<in> set (keys_from reg a)" by simp
    then obtain d where "map_of reg a = Some d" "b \<in> fst ` set d"
      unfolding keys_from_def by (cases "map_of reg a") auto
    moreover from this have "map_of d b \<noteq> None"
      by (simp add: map_of_eq_None_iff)
    ultimately show ?thesis using 0 unfolding direct_def by auto
  next
    case (Suc n)
    then show ?thesis using 3 by auto
  qed
qed auto

lemma getConverter_direct: "getConverter reg s t True = map_option Instance (direct reg s t)"
  by (subst getConverter.simps) (auto split: option.splits)

lemma chain_hops:
  "map (\<lambda>istep. g (r ! istep) (r ! (istep + 1))) [0 ..< length r - 1] = map (\<lambda>(a, b). g a b) (hops r)"
proof (induction r rule: hops.induct)
  case (1 a b rest)
  have "[0 ..< length (a # b # rest) - 1] = 0 # map Suc [0 ..< length (b # rest) - 1]"
    by (simp add: upt_conv_Cons map_Suc_upt del: upt_Suc)
  then show ?case using 1 by (simp add: comp_def del: upt_Suc)
qed auto

lemma hops_direct:
  "is_route reg r \<Longrightarrow> \<exists>clss. map (\<lambda>(a, b). direct reg a b) (hops r) = map Some clss"
proof (induction r rule: hops.induct)
  case (1 a b rest)
  from route_direct[OF 1(2), of 0] obtain cls where "direct reg a b = Some cls" by auto
  moreover from 1 obtain clss where "map (\<lambda>(a, b). direct reg a b) (hops (b # rest)) = map Some clss" by auto
  ultimately have "map (\<lambda>(a, b). direct reg a b) (hops (a # b # rest)) = map Some (cls # clss)" by simp
  then show ?case by blast
qed auto

lemma convert_chain_instances:
  "convert_chain run (map (Some \<circ> Instance) clss) x = Inr (fold run clss x)"
  by (induction clss arbitrary: x) auto

text \<open>
  Claim C3. \<^verbatim>\<open>getConverter(source, target)\<close> returns the registered direct converter when
  there is one. Otherwise the depth-first search \<^verbatim>\<open>findIndirectConversion\<close>, which never
  revisits a version (it is a total function, also on cyclic registrations), returns exactly
  the simple routes from source to target; when there is none the result is \<^verbatim>\<open>None\<close>, and
  otherwise the result is the chain of the direct converters along a route with the fewest
  hops, and running the chain applies them in order, each on the output of the one before.
\<close>

theorem getConverter_shortest_chain:
  "(\<forall>cls. direct reg s t = Some cls \<longrightarrow> getConverter reg s t d = Some (Instance cls))
   \<and> set (findIndirectConversion reg s t []) = {r. simple_route reg s t r}
   \<and> (direct reg s t = None \<and> (\<forall>r. \<not> simple_route reg s t r) \<longrightarrow> getConverter reg s t False = None)
   \<and> (direct reg s t = None \<and> (\<exists>r. simple_route reg s t r) \<longrightarrow>
        (\<exists>route clss.
            simple_route reg s t route
          \<and> (\<forall>r. simple_route reg s t r \<longrightarrow> length route \<le> length r)
          \<and> map (\<lambda>(a, b). direct reg a b) (hops route) = map Some clss
          \<and> getConverter reg s t False = Some (ConvertorChain (map (Some \<circ> Instance) clss))
          \<and> (\<forall>run x. convert run (ConvertorChain (map (Some \<circ> Instance) clss)) x
                         = Inr (fold run clss x))))"
proof (intro conjI allI impI)
  fix cls assume "direct reg s t = Some cls"
  then show "getConverter reg s t d = Some (Instance cls)"
    by (subst getConverter.simps) simp
next
  show "set (findIndirectConversion reg s t []) = {r. simple_route reg s t r}"
    by (rule fic_set)
next
  assume "direct reg s t = None \<and> (\<forall>r. \<not> simple_route reg s t r)"
  moreover from this have "findIndirectConversion reg s t [] = []"
    using fic_set[of reg s t] by simp
  ultimately show "getConverter reg s t False = None"
    by (subst getConverter.simps) simp
next
  assume a: "direct reg s t = None \<and> (\<exists>r. simple_route reg s t r)"
  let ?rs = "findIndirectConversion reg s t []"
  let ?route = "hd (sort_key length ?rs)"
  from a have ne: "?rs \<noteq> []" using fic_set[of reg s t] by auto
  from hd_sort_key_min[OF ne, of length]
  have mem: "?route \<in> set ?rs" and least: "\<forall>y \<in> set ?rs. length ?route \<le> length y" by auto
  from mem have sr: "simple_route reg s t ?route" using fic_set[of reg s t] by auto
  then have "is_route reg ?route" by (simp add: simple_route_def)
  from hops_direct[OF this] obtain clss
    where clss: "map (\<lambda>(a, b). direct reg a b) (hops ?route) = map Some clss" by blast
  have "map (\<lambda>istep. getConverter reg (?route ! istep) (?route ! (istep + 1)) True)
            [0 ..< length ?route - 1]
        = map (\<lambda>(a, b). getConverter reg a b True) (hops ?route)"
    by (rule chain_hops)
  also have "\<dots> = map (map_option Instance) (map (\<lambda>(a, b). direct reg a b) (hops ?route))"
    by (simp add: getConverter_direct comp_def case_prod_unfold)
  also have "\<dots> = map (Some \<circ> Instance) clss"
    unfolding clss by simp
  finally have chain: "map (\<lambda>istep. getConverter reg (?route ! istep) (?route ! (istep + 1)) True)
            [0 ..< length ?route - 1] = map (Some \<circ> Instance) clss" .
  have gc: "getConverter reg s t False = Some (ConvertorChain (map (Some \<circ> Instance) clss))"
    using a ne chain by (subst getConverter.simps) (simp add: Let_def)
  have "\<forall>r. simple_route reg s t r \<longrightarrow> length ?route \<le> length r"
    using least fic_set[of reg s t] by auto
  with sr clss gc show "\<exists>route clss.
            simple_route reg s t route
          \<and> (\<forall>r. simple_route reg s t r \<longrightarrow> length route \<le> length r)
          \<and> map (\<lambda>(a, b). direct reg a b) (hops route) = map Some clss
          \<and> getConverter reg s t False = Some (ConvertorChain (map (Some \<circ> Instance) clss))
          \<and> (\<forall>run x. convert run (ConvertorChain (map (Some \<circ> Instance) clss)) x
                         = Inr (fold run clss x))"
    by (intro exI[of _ ?route] exI[of _ clss]) (simp add: convert_chain_instances)
qed

text \<open>
  The registry \<open>reg0\<close> is cyclic (A to B, B to A, B to C): A to B is direct, A to C goes
  through B, and nothing leads from C to A.
\<close>

theorem getConverter_shortest_chain_witness:
  "direct reg0 ''A'' ''B'' = Some 1
   \<and> getConverter reg0 ''A'' ''B'' False = Some (Instance 1)
   \<and> direct reg0 ''A'' ''C'' = None
   \<and> simple_route reg0 ''A'' ''C'' [''A'', ''B'', ''C'']
   \<and> getConverter reg0 ''A'' ''C'' False = Some (ConvertorChain [Some (Instance 1), Some (Instance 3)])
   \<and> convert (\<lambda>c x. x @ [c]) (ConvertorChain [Some (Instance 1), Some (Instance 3)]) [] = Inr [1, 3]
   \<and> direct reg0 ''C'' ''A'' = None
   \<and> getConverter reg0 ''C'' ''A'' False = None"
proof -
  have d1: "direct reg0 ''A'' ''B'' = Some 1" and d2: "direct reg0 ''A'' ''C'' = None"
    and d3: "direct reg0 ''C'' ''A'' = None" and d4: "direct reg0 ''B'' ''C'' = Some 3"
    by (simp_all add: direct_def reg0_def)
  have f1: "findIndirectConversion reg0 ''A'' ''C'' [] = [[''A'', ''B'', ''C'']]"
    by (simp add: findIndirectConversion.simps reg0_def keys_from_def)
  have f2: "findIndirectConversion reg0 ''C'' ''A'' [] = []"
    by (simp add: findIndirectConversion.simps reg0_def keys_from_def)
  note t1 = getConverter_shortest_chain [of reg0 "''A''" "''B''" False]
  note t2 = getConverter_shortest_chain [of reg0 "''A''" "''C''" False]
  note t3 = getConverter_shortest_chain [of reg0 "''C''" "''A''" False]
  have g1: "getConverter reg0 ''A'' ''B'' False = Some (Instance 1)"
    using t1 d1 by blast
  have s2: "{r. simple_route reg0 ''A'' ''C'' r} = {[''A'', ''B'', ''C'']}"
    using t2 [THEN conjunct2, THEN conjunct1] unfolding f1 by auto
  then have sr: "simple_route reg0 ''A'' ''C'' [''A'', ''B'', ''C'']" by blast
  from t2 d2 sr obtain route clss where rc:
     "simple_route reg0 ''A'' ''C'' route"
     "map (\<lambda>(a, b). direct reg0 a b) (hops route) = map Some clss"
     "getConverter reg0 ''A'' ''C'' False = Some (ConvertorChain (map (Some \<circ> Instance) clss))"
     "\<forall>run x. convert run (ConvertorChain (map (Some \<circ> Instance) clss)) x = Inr (fold run clss x)"
    by blast
  from rc(1) s2 have "route = [''A'', ''B'', ''C'']" by blast
  with rc(2) d1 d4 have clss: "clss = [1, 3]" by (cases clss; cases "tl clss") auto
  have g2: "getConverter reg0 ''A'' ''C'' False = Some (ConvertorChain [Some (Instance 1), Some (Instance 3)])"
    using rc(3) clss by simp
  have c2: "convert (\<lambda>c x. x @ [c]) (ConvertorChain [Some (Instance 1), Some (Instance 3)]) [] = Inr [1, 3]"
    using rc(4) clss by simp
  have "\<forall>r. \<not> simple_route reg0 ''C'' ''A'' r"
    using t3 [THEN conjunct2, THEN conjunct1] unfolding f2 by auto
  with t3 d3 have g3: "getConverter reg0 ''C'' ''A'' False = None" by blast
  from d1 g1 d2 sr g2 c2 d3 g3 show ?thesis by blast
qed

subsection \<open>The sample store\<close>

lemmas init_defs = init_valuechildren_def setdefault_append_def prepare_child_def
  dict_pop_def read_occurs_def read_minOccurs_def read_maxOccurs_def remove_redundant_def
  with_placeholders_def finish_node_def own_valuenode_def removeChild_def py_int_def strip_def
  is_space_def digits_int_def is_digit_def nat_of_digits_def digit_val_def
  getValueType_class_def Let_def

lemmas sample_defs = schema0_def heap0_def dts_int_def element0_def

lemma root0_eq: "root0 =
  Node \<lparr>valid = True, templatenode = schema0, valueroot = Some 1, valuenode = Some 1,
          location = [], visible = True, grouponly = [[]]\<rparr>
   [Node \<lparr>valid = True,
            templatenode = Element ''element'' [(''name'', ''a''), (''minOccurs'', ''0''),
                            (''maxOccurs'', ''unbounded''), (''type'', ''int'')] [],
            valueroot = Some 2, valuenode = Some 2, location = [''a''], visible = True,
            grouponly = [[]]\<rparr> [],
    Node \<lparr>valid = True,
            templatenode = Element ''element'' [(''name'', ''a''), (''minOccurs'', ''0''),
                            (''maxOccurs'', ''unbounded''), (''type'', ''int'')] [],
            valueroot = Some 4, valuenode = Some 4, location = [''a''], visible = True,
            grouponly = [[]]\<rparr> [],
    Node \<lparr>valid = True,
            templatenode = Element ''element'' [(''name'', ''b''), (''type'', ''int'')] [],
            valueroot = Some 3, valuenode = Some 3, location = [''b''], visible = True,
            grouponly = [[]]\<rparr> [],
    Node \<lparr>valid = True,
            templatenode = Element ''element'' [(''name'', ''b''), (''type'', ''int'')] [],
            valueroot = Some 5, valuenode = Some 5, location = [''b''], visible = True,
            grouponly = [[]]\<rparr> [],
    Node \<lparr>valid = True,
            templatenode = Element ''element'' [(''name'', ''g''), (''grouponly'', ''True'')]
                             [Element ''element'' [(''name'', ''c''), (''type'', ''int'')] []],
            valueroot = None, valuenode = None, location = [''g''], visible = True,
            grouponly = [''True'']\<rparr>
      [Node \<lparr>valid = True,
               templatenode = Element ''element'' [(''name'', ''c''), (''type'', ''int'')] [],
               valueroot = None, valuenode = None, location = [''g'', ''c''], visible = True,
               grouponly = [[]]\<rparr> []]]"
  unfolding root0_def built0_def
  by (simp add: sample_defs init_defs)

subsection \<open>Counting children through an interface\<close>

lemma count_children:
  "getChildCount iface n = map_sum id length (getChildren iface n)"
  "getChildCount_loop iface chs (length res) = map_sum id length (getChildren_loop iface chs res)"
proof (induction iface n and iface chs res arbitrary: and res
        rule: getChildren_getChildren_loop.induct)
  case (1 iface a chs)
  from 1[of "[]"] show ?case by simp
next
  case (2 iface res)
  show ?case by simp
next
  case (3 iface child rest res)
  show ?case
  proof (cases "visible (attrs child) \<or> showhidden iface")
    case False
    then show ?thesis using 3(4)[of res] by simp
  next
    case vis: True
    show ?thesis
    proof (cases "isGrouper iface child")
      case False
      then show ?thesis using vis 3(3)[of "res @ [child]"] by simp
    next
      case g: True
      show ?thesis
      proof (cases "getChildren iface child")
        case (Inl e)
        then show ?thesis using vis g 3(1) by simp
      next
        case (Inr cs)
        then show ?thesis using vis g 3(1) 3(2)[of cs "res @ cs"] by simp
      qed
    qed
  qed
qed

lemma children_total:
  "all_valid n \<Longrightarrow> \<exists>cs. getChildren iface n = Inr cs"
  "list_all all_valid chs \<Longrightarrow> \<exists>cs. getChildren_loop iface chs res = Inr cs"
proof (induction iface n and iface chs res rule: getChildren_getChildren_loop.induct)
  case (3 iface child rest res)
  then show ?case by (cases child) (auto split: sum.splits)
qed auto

text \<open>
  Claim C10. For every interface, whatever its settings \<^verbatim>\<open>showhidden\<close> and \<^verbatim>\<open>omitgroupers\<close>,
  \<^verbatim>\<open>getChildCount(node)\<close> is the length of \<^verbatim>\<open>getChildren(node)\<close>: the two fail on the same
  nodes (a destroyed node), and on a node none of whose descendants is destroyed both
  return.
\<close>

theorem getChildCount_length_getChildren:
  "getChildCount iface node = map_sum id length (getChildren iface node)
   \<and> (all_valid node \<longrightarrow>
        (\<exists>cs. getChildren iface node = Inr cs \<and> getChildCount iface node = Inr (length cs)))"
proof (intro conjI impI)
  show eq: "getChildCount iface node = map_sum id length (getChildren iface node)"
    by (rule count_children(1))
  assume "all_valid node"
  then obtain cs where "getChildren iface node = Inr cs"
    using children_total(1) by blast
  with eq show "\<exists>cs. getChildren iface node = Inr cs \<and> getChildCount iface node = Inr (length cs)"
    by simp
qed

text \<open>
  In the sample store an interface that omits groupers sees five children of the root: the
  four value nodes and \<open>c\<close> in place of its group \<open>g\<close>.
\<close>

theorem getChildCount_length_getChildren_witness:
  "all_valid root0
   \<and> getChildCount iface0 root0 = Inr 5
   \<and> map_sum id (map (location \<circ> attrs)) (getChildren iface0 root0)
       = Inr [[''a''], [''a''], [''b''], [''b''], [''g'', ''c'']]"
proof -
  have v: "all_valid root0" by (simp add: root0_eq)
  have c: "map_sum id (map (location \<circ> attrs)) (getChildren iface0 root0)
       = Inr [[''a''], [''a''], [''b''], [''b''], [''g'', ''c'']]"
    by (simp add: root0_eq iface0_def isGrouper_def)
  from getChildCount_length_getChildren [of iface0 root0] v
  obtain cs where cs: "getChildren iface0 root0 = Inr cs" "getChildCount iface0 root0 = Inr (length cs)"
    by blast
  from c cs(1) have "length cs = 5" by auto
  with v c cs show ?thesis by simp
qed

subsection \<open>Construction of the node tree\<close>

lemma shrinks_refl: "shrinks h h"
  by (simp add: shrinks_def)

lemma shrinks_trans:
  assumes "shrinks h1 h2" "shrinks h2 h3"
  shows "shrinks h1 h3"
  unfolding shrinks_def
proof (intro allI impI)
  fix a d assume "h1 a = Some d"
  with assms(1) obtain d2 where d2: "h2 a = Some d2" "set (domchildren d2) \<subseteq> set (domchildren d)"
      "distinct (domchildren d) \<longrightarrow> distinct (domchildren d2)"
    unfolding shrinks_def by blast
  from assms(2) d2(1) obtain d3 where d3: "h3 a = Some d3" "set (domchildren d3) \<subseteq> set (domchildren d2)"
      "distinct (domchildren d2) \<longrightarrow> distinct (domchildren d3)"
    unfolding shrinks_def by blast
  from d2 d3 show "\<exists>d'. h3 a = Some d' \<and> set (domchildren d') \<subseteq> set (domchildren d)
              \<and> (distinct (domchildren d) \<longrightarrow> distinct (domchildren d'))"
    by auto
qed

lemma removeChild_unfold:
  assumes "removeChild h p c = Inr h'"
  shows "\<exists>d e. h p = Some d \<and> c \<in> set (domchildren d)
           \<and> (h(p \<mapsto> d\<lparr>domchildren := remove1 c (domchildren d)\<rparr>)) c = Some e
           \<and> h' = (h(p \<mapsto> d\<lparr>domchildren := remove1 c (domchildren d)\<rparr>))(c \<mapsto> e\<lparr>parentNode := None\<rparr>)"
proof -
  from assms obtain d where d: "h p = Some d"
    unfolding removeChild_def by (cases "h p") auto
  with assms have c: "c \<in> set (domchildren d)"
    unfolding removeChild_def by (auto split: if_splits)
  let ?h1 = "h(p \<mapsto> d\<lparr>domchildren := remove1 c (domchildren d)\<rparr>)"
  from assms d c obtain e where e: "?h1 c = Some e"
    unfolding removeChild_def by (cases "?h1 c") (auto simp: Let_def)
  with assms d c have "h' = ?h1(c \<mapsto> e\<lparr>parentNode := None\<rparr>)"
    unfolding removeChild_def by (auto simp: Let_def)
  with d c e show ?thesis by blast
qed

lemma removeChild_shrinks:
  assumes "removeChild h p c = Inr h'"
  shows "shrinks h h'"
proof -
  from removeChild_unfold[OF assms] obtain d e where
    d: "h p = Some d" and e: "(h(p \<mapsto> d\<lparr>domchildren := remove1 c (domchildren d)\<rparr>)) c = Some e"
    and h': "h' = (h(p \<mapsto> d\<lparr>domchildren := remove1 c (domchildren d)\<rparr>))(c \<mapsto> e\<lparr>parentNode := None\<rparr>)"
    by blast
  show ?thesis unfolding shrinks_def
  proof (intro allI impI)
    fix a x assume ax: "h a = Some x"
    show "\<exists>d'. h' a = Some d' \<and> set (domchildren d') \<subseteq> set (domchildren x)
              \<and> (distinct (domchildren x) \<longrightarrow> distinct (domchildren d'))"
    proof (cases "a = p")
      case True
      with ax d have xd: "x = d" by simp
      show ?thesis
      proof (cases "c = p")
        case True
        with e have "e = d\<lparr>domchildren := remove1 c (domchildren d)\<rparr>" by simp
        with True \<open>a = p\<close> h' xd show ?thesis by (auto dest: set_remove1_subset[THEN subsetD])
      next
        case False
        with \<open>a = p\<close> h' xd show ?thesis by (auto dest: set_remove1_subset[THEN subsetD])
      qed
    next
      case False
      show ?thesis
      proof (cases "a = c")
        case True
        with False e ax have "e = x" by simp
        with True h' show ?thesis by simp
      next
        case ac: False
        with False h' ax show ?thesis by simp
      qed
    qed
  qed
qed

lemma removeChildren_shrinks: "removeChildren h p cs = Inr h' \<Longrightarrow> shrinks h h'"
proof (induction cs arbitrary: h)
  case Nil
  then show ?case by (simp add: shrinks_refl)
next
  case (Cons c cs)
  from Cons.prems obtain h1 where h1: "removeChild h p c = Inr h1" "removeChildren h1 p cs = Inr h'"
    by (cases "removeChild h p c") auto
  from removeChild_shrinks[OF h1(1)] Cons.IH[OF h1(2)] show ?case by (rule shrinks_trans)
qed

lemma shrinks_children_of:
  "shrinks h h' \<Longrightarrow> h a \<noteq> None \<Longrightarrow> set (children_of h' a) \<subseteq> set (children_of h a) \<and> (distinct (children_of h a) \<longrightarrow> distinct (children_of h' a))"
  unfolding shrinks_def children_of_def by (auto split: option.splits) force+

lemma removeChild_gone:
  assumes "removeChild h p c = Inr h'" "distinct (children_of h p)"
  shows "c \<notin> set (children_of h' p)"
proof -
  from removeChild_unfold[OF assms(1)] obtain d e where
    d: "h p = Some d" and e: "(h(p \<mapsto> d\<lparr>domchildren := remove1 c (domchildren d)\<rparr>)) c = Some e"
    and h': "h' = (h(p \<mapsto> d\<lparr>domchildren := remove1 c (domchildren d)\<rparr>))(c \<mapsto> e\<lparr>parentNode := None\<rparr>)"
    by blast
  from assms(2) d have dist: "distinct (domchildren d)" by (simp add: children_of_def)
  show ?thesis
  proof (cases "c = p")
    case True
    with e have "e = d\<lparr>domchildren := remove1 c (domchildren d)\<rparr>" by simp
    with True h' dist show ?thesis by (simp add: children_of_def)
  next
    case False
    with h' dist show ?thesis by (simp add: children_of_def)
  qed
qed

lemma removeChild_dom: "removeChild h p c = Inr h' \<Longrightarrow> h p \<noteq> None"
  using removeChild_unfold by fastforce

lemma removeChildren_gone:
  "removeChildren h p cs = Inr h' \<Longrightarrow> distinct (children_of h p) \<Longrightarrow> \<forall>c \<in> set cs. c \<notin> set (children_of h' p)"
proof (induction cs arbitrary: h)
  case Nil
  then show ?case by simp
next
  case (Cons c cs)
  from Cons.prems(1) obtain h1 where h1: "removeChild h p c = Inr h1" "removeChildren h1 p cs = Inr h'"
    by (cases "removeChild h p c") auto
  have hp: "h p \<noteq> None" using removeChild_dom[OF h1(1)] .
  have s1: "shrinks h h1" using removeChild_shrinks[OF h1(1)] .
  have d1: "distinct (children_of h1 p)" using shrinks_children_of[OF s1 hp] Cons.prems(2) by simp
  have g: "c \<notin> set (children_of h1 p)" using removeChild_gone[OF h1(1) Cons.prems(2)] .
  have s2: "shrinks h1 h'" using removeChildren_shrinks[OF h1(2)] .
  have "h1 p \<noteq> None" using s1 hp unfolding shrinks_def by fastforce
  from shrinks_children_of[OF s2 this] g have "c \<notin> set (children_of h' p)" by auto
  with Cons.IH[OF h1(2) d1] show ?case by simp
qed

lemma grows_refl: "grows s s"
  by (simp add: grows_def shrinks_refl)

lemma grows_trans: "grows s1 s2 \<Longrightarrow> grows s2 s3 \<Longrightarrow> grows s1 s3"
  unfolding grows_def by (auto intro: shrinks_trans)

lemma remove_unexpected_grows:
  "remove_unexpected dts t vroot loc vc h msgs = Inr (h', msgs') \<Longrightarrow> grows (h, msgs) (h', msgs')"
proof (induction vc arbitrary: h msgs)
  case Nil
  then show ?case by (simp add: grows_refl)
next
  case (Cons kv vc)
  obtain childid childnodes where kv: "kv = (childid, childnodes)" by (cases kv)
  show ?case
  proof (cases "\<exists>cls. getValueType_class dts t = Inr (Some cls) \<and> class_is_simple dts cls")
    case False
    with Cons.prems kv have "h' = h" "msgs' = msgs"
      by (auto split: sum.splits option.splits if_splits)
    then show ?thesis by (simp add: grows_refl)
  next
    case True
    with Cons.prems kv obtain vr h1 where
      h1: "removeChildren h vr childnodes = Inr h1"
      and r: "remove_unexpected dts t vroot loc vc h1 (msgs @ [UnexpectedValue childid loc]) = Inr (h', msgs')"
      by (auto split: sum.splits option.splits if_splits)
    have "grows (h, msgs) (h1, msgs @ [UnexpectedValue childid loc])"
      using removeChildren_shrinks[OF h1] by (simp add: grows_def)
    with Cons.IH[OF r] show ?thesis using grows_trans by blast
  qed
qed

lemma remove_redundant_grows:
  assumes "remove_redundant vroot cl cur mx h msgs = Inr (h', msgs')"
  shows "grows (h, msgs) (h', msgs')"
proof (cases "\<exists>m. mx = Bounded m \<and> int (length cur) > m")
  case False
  with assms have "h' = h" "msgs' = msgs"
    unfolding remove_redundant_def by (auto split: maxoccurs.splits)
  then show ?thesis by (simp add: grows_refl)
next
  case True
  then obtain m where m: "mx = Bounded m" "int (length cur) > m" by blast
  with assms obtain vr where "removeChildren h vr (drop (nat m) cur) = Inr h'"
      "msgs' = msgs @ [TooManyChildren cl (length cur) m]"
    unfolding remove_redundant_def by (auto split: option.splits sum.splits)
  then show ?thesis using removeChildren_shrinks by (simp add: grows_def)
qed

lemma prepare_child_unfold:
  assumes "prepare_child tc vroot loc vc h msgs = Inr (cur, vc1, h1, msgs1)"
  shows "\<exists>minO maxO. read_occurs tc = Inr (minO, maxO)
          \<and> remove_redundant vroot (loc @ [getAttribute tc ''name''])
                (lookup vc (getAttribute tc ''name'')) maxO h msgs = Inr (h1, msgs1)
          \<and> cur = with_placeholders (lookup vc (getAttribute tc ''name'')) minO
          \<and> vc1 = snd (dict_pop vc (getAttribute tc ''name'') [])"
proof -
  have l: "fst (dict_pop vc (getAttribute tc ''name'') []) = lookup vc (getAttribute tc ''name'')"
    by (simp add: dict_pop_def lookup_def split: option.splits)
  obtain minO maxO where ro: "read_occurs tc = Inr (minO, maxO)"
    using assms unfolding prepare_child_def
    by (cases "read_occurs tc") (auto simp: Let_def split: prod.splits)
  with assms l show ?thesis
    unfolding prepare_child_def
    by (cases "dict_pop vc (getAttribute tc ''name'') []";
        cases "remove_redundant vroot (loc @ [getAttribute tc ''name''])
                (lookup vc (getAttribute tc ''name'')) maxO h msgs") (auto simp: Let_def)
qed

lemma prepare_child_grows:
  assumes "prepare_child tc vroot loc vc h msgs = Inr (cur, vc1, h1, msgs1)"
  shows "grows (h, msgs) (h1, msgs1)"
proof -
  from prepare_child_unfold[OF assms] obtain maxO where
    "remove_redundant vroot (loc @ [getAttribute tc ''name''])
                (lookup vc (getAttribute tc ''name'')) maxO h msgs = Inr (h1, msgs1)" by blast
  then show ?thesis by (rule remove_redundant_grows)
qed

lemma finish_node_unfold:
  assumes "finish_node dts t vnode loc chs vc h msgs = Inr (n, h', msgs')"
  shows "\<exists>own vc1. own_valuenode t vnode loc vc = Inr (own, vc1)
          \<and> remove_unexpected dts t vnode loc vc1 h msgs = Inr (h', msgs')
          \<and> children n = chs \<and> valueroot (attrs n) = vnode \<and> valuenode (attrs n) = own
          \<and> location (attrs n) = loc"
proof -
  obtain own vc1 where o: "own_valuenode t vnode loc vc = Inr (own, vc1)"
    using assms unfolding finish_node_def by (cases "own_valuenode t vnode loc vc") auto
  with assms show ?thesis unfolding finish_node_def
    by (cases "remove_unexpected dts t vnode loc vc1 h msgs") auto
qed

lemma finish_node_grows:
  assumes "finish_node dts t vnode loc chs vc h msgs = Inr (n, h', msgs')"
  shows "grows (h, msgs) (h', msgs')"
proof -
  from finish_node_unfold[OF assms] obtain vc1 where
    "remove_unexpected dts t vnode loc vc1 h msgs = Inr (h', msgs')" by blast
  then show ?thesis by (rule remove_unexpected_grows)
qed

lemma init_clones_unfold:
  "init_clones dts tc (v # rest) cl h msgs = Inr (ns, h', msgs') \<Longrightarrow>
    \<exists>n1 h1 msgs1 ns2. Node_init dts tc v cl h msgs = Inr (n1, h1, msgs1) \<and>
       init_clones dts tc rest cl h1 msgs1 = Inr (ns2, h', msgs') \<and> ns = n1 # ns2"
  by (auto split: sum.splits)

lemma init_clones_grows:
  assumes P: "\<And>v h msgs n h' msgs'. Node_init dts tc v cl h msgs = Inr (n, h', msgs')
                \<Longrightarrow> grows (h, msgs) (h', msgs')"
  shows "init_clones dts tc cur cl h msgs = Inr (ns, h', msgs') \<Longrightarrow> grows (h, msgs) (h', msgs')"
proof (induction cur arbitrary: h msgs ns)
  case Nil
  then show ?case by (simp add: grows_refl)
next
  case (Cons v rest)
  from init_clones_unfold[OF Cons.prems] obtain n1 h1 msgs1 ns2 where
    a: "Node_init dts tc v cl h msgs = Inr (n1, h1, msgs1)"
       "init_clones dts tc rest cl h1 msgs1 = Inr (ns2, h', msgs')"
    by blast
  from P[OF a(1)] Cons.IH[OF a(2)] show ?case by (rule grows_trans)
qed

lemma init_children_unfold:
  assumes "init_children dts (tc # rest) vroot loc vc h msgs = Inr (chs, vc', h', msgs')"
    and "is_element tc \<and> localName tc = ''element''"
  shows "\<exists>cur vc1 h1 msgs1 nodes h2 msgs2 chs2.
           prepare_child tc vroot loc vc h msgs = Inr (cur, vc1, h1, msgs1)
         \<and> init_clones dts tc cur (loc @ [getAttribute tc ''name'']) h1 msgs1 = Inr (nodes, h2, msgs2)
         \<and> init_children dts rest vroot loc vc1 h2 msgs2 = Inr (chs2, vc', h', msgs')
         \<and> chs = nodes @ chs2"
proof -
  from assms obtain cur vc1 h1 msgs1 where
    a: "prepare_child tc vroot loc vc h msgs = Inr (cur, vc1, h1, msgs1)"
    by (cases "prepare_child tc vroot loc vc h msgs") auto
  from assms a obtain nodes h2 msgs2 where
    b: "init_clones dts tc cur (loc @ [getAttribute tc ''name'']) h1 msgs1 = Inr (nodes, h2, msgs2)"
    by (cases "init_clones dts tc cur (loc @ [getAttribute tc ''name'']) h1 msgs1") auto
  from assms a b show ?thesis
    by (cases "init_children dts rest vroot loc vc1 h2 msgs2") auto
qed

lemma init_children_grows:
  assumes P: "\<And>tc v cl h msgs n h' msgs'. tc \<in> set tchs \<Longrightarrow>
                Node_init dts tc v cl h msgs = Inr (n, h', msgs') \<Longrightarrow> grows (h, msgs) (h', msgs')"
  shows "init_children dts tchs vroot loc vc h msgs = Inr (chs, vc', h', msgs')
           \<Longrightarrow> grows (h, msgs) (h', msgs')"
  using P
proof (induction tchs arbitrary: vc h msgs chs)
  case Nil
  then show ?case by (simp add: grows_refl)
next
  case (Cons tc rest)
  have Prest: "grows (h, msgs) (h', msgs')"
    if "tc' \<in> set rest" "Node_init dts tc' v cl h msgs = Inr (n, h', msgs')"
    for tc' v cl h msgs n h' msgs'
    by (rule Cons.prems(2)[OF _ that(2)]) (simp add: that(1))
  show ?case
  proof (cases "is_element tc \<and> localName tc = ''element''")
    case False
    with Cons.prems(1) have "init_children dts rest vroot loc vc h msgs = Inr (chs, vc', h', msgs')"
      by simp
    from Cons.IH[OF this Prest] show ?thesis .
  next
    case True
    from init_children_unfold[OF Cons.prems(1) True] obtain cur vc1 h1 msgs1 nodes h2 msgs2 chs2 where
      a: "prepare_child tc vroot loc vc h msgs = Inr (cur, vc1, h1, msgs1)"
         "init_clones dts tc cur (loc @ [getAttribute tc ''name'']) h1 msgs1 = Inr (nodes, h2, msgs2)"
         "init_children dts rest vroot loc vc1 h2 msgs2 = Inr (chs2, vc', h', msgs')"
      by blast
    have g1: "grows (h, msgs) (h1, msgs1)" using prepare_child_grows[OF a(1)] .
    have Phead: "grows (h, msgs) (h', msgs')"
      if "Node_init dts tc v cl h msgs = Inr (n, h', msgs')" for v cl h msgs n h' msgs'
      by (rule Cons.prems(2)[OF _ that]) simp
    have g2: "grows (h1, msgs1) (h2, msgs2)"
      by (rule init_clones_grows[OF Phead a(2)])
    have g3: "grows (h2, msgs2) (h', msgs')" using Cons.IH[OF a(3) Prest] .
    from g1 g2 have "grows (h, msgs) (h2, msgs2)" by (rule grows_trans)
    from this g3 show ?thesis by (rule grows_trans)
  qed
qed

lemma Node_init_unfold:
  assumes "Node_init dts t vnode loc h msgs = Inr (n, h', msgs')"
  shows "\<exists>tag atts tchs vc chs vc1 h1 msgs1.
           t = Element tag atts tchs
         \<and> init_valuechildren h vnode = Inr vc
         \<and> init_children dts tchs vnode loc vc h msgs = Inr (chs, vc1, h1, msgs1)
         \<and> finish_node dts t vnode loc chs vc1 h1 msgs1 = Inr (n, h', msgs')"
proof (cases t)
  case (CharacterData s)
  with assms show ?thesis by simp
next
  case (Element tag atts tchs)
  with assms obtain vc where vc: "init_valuechildren h vnode = Inr vc"
    by (cases "init_valuechildren h vnode") (auto split: if_splits)
  with assms Element obtain chs vc1 h1 msgs1 where
    "init_children dts tchs vnode loc vc h msgs = Inr (chs, vc1, h1, msgs1)"
    by (cases "init_children dts tchs vnode loc vc h msgs") (auto split: if_splits)
  with assms Element vc show ?thesis by (auto split: if_splits)
qed

lemma Node_init_grows:
  "Node_init dts t vnode loc h msgs = Inr (n, h', msgs') \<Longrightarrow> grows (h, msgs) (h', msgs')"
proof (induction t arbitrary: vnode loc h msgs n h' msgs')
  case (Element tag atts tchs)
  from Node_init_unfold[OF Element.prems] obtain vc chs vc1 h1 msgs1 where
    a: "init_children dts tchs vnode loc vc h msgs = Inr (chs, vc1, h1, msgs1)"
       "finish_node dts (Element tag atts tchs) vnode loc chs vc1 h1 msgs1 = Inr (n, h', msgs')"
    by auto
  have "grows (h, msgs) (h1, msgs1)"
    by (rule init_children_grows[OF _ a(1)]) (rule Element.IH)
  from this finish_node_grows[OF a(2)] show ?case by (rule grows_trans)
next
  case (CharacterData s)
  then show ?case by simp
qed

lemma lookup_setdefault_append:
  "lookup (setdefault_append d k a) nm = (if nm = k then lookup d nm @ [a] else lookup d nm)"
proof (cases "k \<in> fst ` set d")
  case True
  have "map_of (map (\<lambda>(k', as). if k' = k then (k', as @ [a]) else (k', as)) d) nm
          = map_option (\<lambda>as. if nm = k then as @ [a] else as) (map_of d nm)"
    by (induction d) auto
  moreover from True have "map_of d k \<noteq> None" by (simp add: map_of_eq_None_iff)
  ultimately show ?thesis using True
    by (auto simp: lookup_def setdefault_append_def split: option.splits)
next
  case False
  then have "map_of d k = None" by (simp add: map_of_eq_None_iff)
  with False show ?thesis
    by (auto simp: lookup_def setdefault_append_def map_add_def split: option.splits)
qed

lemma lookup_build_valuechildren:
  "build_valuechildren h chs d = Inr vc \<Longrightarrow>
     lookup vc nm = lookup d nm @ filter (\<lambda>ch. case h ch of None \<Rightarrow> False
                             | Some c \<Rightarrow> nodeType c = ELEMENT_NODE \<and> tagName c = nm) chs"
proof (induction chs arbitrary: d)
  case Nil
  then show ?case by simp
next
  case (Cons ch chs)
  then show ?case
    by (cases "h ch") (auto simp: lookup_setdefault_append split: if_splits)
qed

lemma lookup_init_valuechildren:
  "init_valuechildren h vnode = Inr vc \<Longrightarrow> lookup vc nm = matching_entries h vnode nm"
  unfolding init_valuechildren_def matching_entries_def
  by (auto split: option.splits dest!: lookup_build_valuechildren[where nm = nm] simp: lookup_def)

lemma lookup_dict_pop:
  "lookup (snd (dict_pop vc k [])) nm = (if nm = k then [] else lookup vc nm)"
proof -
  have "map_of (filter (\<lambda>kv. fst kv \<noteq> k) vc) nm = (if nm = k then None else map_of vc nm)"
    by (induction vc) auto
  then show ?thesis
    by (auto simp: lookup_def dict_pop_def split: option.splits)
qed

lemma dict_pop_subset: "set (snd (dict_pop vc k dflt)) \<subseteq> set vc"
  by (auto simp: dict_pop_def split: option.splits)

lemma init_children_dict:
  "init_children dts tchs vroot loc vc h msgs = Inr (chs, vc', h', msgs') \<Longrightarrow> set vc' \<subseteq> set vc"
proof (induction tchs arbitrary: vc h msgs chs)
  case Nil
  then show ?case by simp
next
  case (Cons tc rest)
  show ?case
  proof (cases "is_element tc \<and> localName tc = ''element''")
    case False
    with Cons.prems have "init_children dts rest vroot loc vc h msgs = Inr (chs, vc', h', msgs')"
      by simp
    from Cons.IH[OF this] show ?thesis .
  next
    case True
    from init_children_unfold[OF Cons.prems True] obtain cur vc1 h1 msgs1 nodes h2 msgs2 chs2 where
      a: "prepare_child tc vroot loc vc h msgs = Inr (cur, vc1, h1, msgs1)"
         "init_children dts rest vroot loc vc1 h2 msgs2 = Inr (chs2, vc', h', msgs')"
      by blast
    from prepare_child_unfold[OF a(1)] have "vc1 = snd (dict_pop vc (getAttribute tc ''name'') [])"
      by blast
    with dict_pop_subset have "set vc1 \<subseteq> set vc" by metis
    with Cons.IH[OF a(2)] show ?thesis by blast
  qed
qed

lemma Node_init_attrs:
  assumes "Node_init dts t vnode loc h msgs = Inr (n, h', msgs')"
  shows "valueroot (attrs n) = vnode \<and> location (attrs n) = loc
         \<and> (vnode = None \<longrightarrow> valuenode (attrs n) = None)"
proof -
  from Node_init_unfold[OF assms] obtain vc chs vc1 h1 msgs1 where
    a: "init_valuechildren h vnode = Inr vc"
       "init_children dts (childNodes t) vnode loc vc h msgs = Inr (chs, vc1, h1, msgs1)"
       "finish_node dts t vnode loc chs vc1 h1 msgs1 = Inr (n, h', msgs')"
    by auto
  from finish_node_unfold[OF a(3)] obtain own vc2 where
    b: "own_valuenode t vnode loc vc1 = Inr (own, vc2)" "valueroot (attrs n) = vnode"
       "valuenode (attrs n) = own" "location (attrs n) = loc"
    by blast
  have "own = None" if "vnode = None"
  proof -
    from that a(1) have "vc = []" by (simp add: init_valuechildren_def)
    with init_children_dict[OF a(2)] have "vc1 = []" by simp
    with b(1) that show ?thesis
      by (auto simp: own_valuenode_def split: if_splits)
  qed
  with b show ?thesis by simp
qed

lemma init_clones_nodes:
  "init_clones dts tc cur cl h msgs = Inr (ns, h', msgs') \<Longrightarrow>
     map (\<lambda>n. valueroot (attrs n)) ns = cur
     \<and> (\<forall>n \<in> set ns. location (attrs n) = cl
            \<and> (valueroot (attrs n) = None \<longrightarrow> valuenode (attrs n) = None))"
proof (induction cur arbitrary: h msgs ns)
  case Nil
  then show ?case by simp
next
  case (Cons v rest)
  from init_clones_unfold[OF Cons.prems] obtain n1 h1 msgs1 ns2 where
    a: "Node_init dts tc v cl h msgs = Inr (n1, h1, msgs1)"
       "init_clones dts tc rest cl h1 msgs1 = Inr (ns2, h', msgs')" "ns = n1 # ns2"
    by blast
  from Node_init_attrs[OF a(1)] Cons.IH[OF a(2)] a(3) show ?case by simp
qed

lemma shrinks_keeps:
  assumes "shrinks h h'" "h a \<noteq> None"
  shows "h' a \<noteq> None" "set (children_of h' a) \<subseteq> set (children_of h a)"
    "distinct (children_of h a) \<Longrightarrow> distinct (children_of h' a)"
proof -
  from assms obtain d where d: "h a = Some d" by auto
  with assms(1) obtain d' where d': "h' a = Some d'" "set (domchildren d') \<subseteq> set (domchildren d)"
    "distinct (domchildren d) \<longrightarrow> distinct (domchildren d')"
    unfolding shrinks_def by blast
  from d d' show "h' a \<noteq> None" "set (children_of h' a) \<subseteq> set (children_of h a)"
    "distinct (children_of h a) \<Longrightarrow> distinct (children_of h' a)"
    by (simp_all add: children_of_def)
qed

lemma init_clones_grows':
  "init_clones dts tc cur cl h msgs = Inr (ns, h', msgs') \<Longrightarrow> grows (h, msgs) (h', msgs')"
  by (rule init_clones_grows[OF Node_init_grows])

lemma init_children_grows':
  "init_children dts tchs vroot loc vc h msgs = Inr (chs, vc', h', msgs') \<Longrightarrow> grows (h, msgs) (h', msgs')"
  by (rule init_children_grows[OF Node_init_grows])

lemma schema_children_Cons:
  "schema_children (tc # rest) =
     (if is_element tc \<and> localName tc = ''element'' then tc # schema_children rest else schema_children rest)"
  by (simp add: schema_children_def)

lemma init_children_locations:
  "init_children dts tchs vroot loc vc h msgs = Inr (chs, vc', h', msgs') \<Longrightarrow>
     \<forall>c \<in> set chs. \<exists>tc \<in> set (schema_children tchs). location (attrs c) = loc @ [getAttribute tc ''name'']"
proof (induction tchs arbitrary: vc h msgs chs)
  case Nil
  then show ?case by simp
next
  case (Cons tc rest)
  show ?case
  proof (cases "is_element tc \<and> localName tc = ''element''")
    case False
    with Cons.prems have "init_children dts rest vroot loc vc h msgs = Inr (chs, vc', h', msgs')"
      by simp
    from Cons.IH[OF this] False show ?thesis by (simp add: schema_children_Cons)
  next
    case True
    from init_children_unfold[OF Cons.prems True] obtain cur vc1 h1 msgs1 nodes h2 msgs2 chs2 where
      a: "init_clones dts tc cur (loc @ [getAttribute tc ''name'']) h1 msgs1 = Inr (nodes, h2, msgs2)"
         "init_children dts rest vroot loc vc1 h2 msgs2 = Inr (chs2, vc', h', msgs')"
         "chs = nodes @ chs2"
      by blast
    from init_clones_nodes[OF a(1)] Cons.IH[OF a(2)] a(3) True show ?thesis
      by (auto simp: schema_children_Cons)
  qed
qed

lemma notin_imageD: "x \<notin> f ` S \<Longrightarrow> t \<in> S \<Longrightarrow> f t \<noteq> x"
  by auto

lemma init_children_nodes:
  assumes "init_children dts tchs vroot loc vc h msgs = Inr (chs, vc', h', msgs')"
    and "distinct (map (\<lambda>tc. getAttribute tc ''name'') (schema_children tchs))"
    and "tc \<in> set (schema_children tchs)"
  shows "\<exists>minoccurs maxoccurs. read_occurs tc = Inr (minoccurs, maxoccurs)
          \<and> map (\<lambda>n. valueroot (attrs n)) (nodes_named loc (getAttribute tc ''name'') chs)
              = with_placeholders (lookup vc (getAttribute tc ''name'')) minoccurs
          \<and> (\<forall>n \<in> set (nodes_named loc (getAttribute tc ''name'') chs).
                 valueroot (attrs n) = None \<longrightarrow> valuenode (attrs n) = None)"
  using assms
proof (induction tchs arbitrary: vc h msgs chs)
  case Nil
  then show ?case by (simp add: schema_children_def)
next
  case (Cons tc0 rest)
  show ?case
  proof (cases "is_element tc0 \<and> localName tc0 = ''element''")
    case False
    with Cons.prems(1) have "init_children dts rest vroot loc vc h msgs = Inr (chs, vc', h', msgs')"
      by simp
    from Cons.IH[OF this] Cons.prems(2,3) False show ?thesis by (simp add: schema_children_Cons)
  next
    case True
    from init_children_unfold[OF Cons.prems(1) True] obtain cur vc1 h1 msgs1 nodes h2 msgs2 chs2 where
      a: "prepare_child tc0 vroot loc vc h msgs = Inr (cur, vc1, h1, msgs1)"
         "init_clones dts tc0 cur (loc @ [(getAttribute tc0 ''name'')]) h1 msgs1 = Inr (nodes, h2, msgs2)"
         "init_children dts rest vroot loc vc1 h2 msgs2 = Inr (chs2, vc', h', msgs')"
         "chs = nodes @ chs2"
      by blast
    from prepare_child_unfold[OF a(1)] obtain minO maxO where
      p: "read_occurs tc0 = Inr (minO, maxO)" "cur = with_placeholders (lookup vc (getAttribute tc0 ''name'')) minO"
         "vc1 = snd (dict_pop vc (getAttribute tc0 ''name'') [])"
      by blast
    note cl = init_clones_nodes[OF a(2)]
    note locs = init_children_locations[OF a(3)]
    from Cons.prems(2) True have dist0: "getAttribute tc0 ''name'' \<notin> (\<lambda>tc. getAttribute tc ''name'') ` set (schema_children rest)"
      and "distinct (map (\<lambda>tc. getAttribute tc ''name'') (schema_children rest))"
      by (simp_all add: schema_children_Cons)
    then have dist: "\<forall>tc1 \<in> set (schema_children rest). getAttribute tc1 ''name'' \<noteq> getAttribute tc0 ''name''"
      "distinct (map (\<lambda>tc. getAttribute tc ''name'') (schema_children rest))"
      using notin_imageD by fast+
    show ?thesis
    proof (cases "tc = tc0")
      case True
      have "nodes_named loc (getAttribute tc0 ''name'') chs2 = []"
      proof -
        have "location (attrs c) \<noteq> loc @ [getAttribute tc0 ''name'']" if "c \<in> set chs2" for c
        proof -
          from locs that obtain tc1 where "tc1 \<in> set (schema_children rest)"
            "location (attrs c) = loc @ [getAttribute tc1 ''name'']" by blast
          with dist(1) show ?thesis by auto
        qed
        then show ?thesis unfolding nodes_named_def filter_empty_conv by blast
      qed
      moreover have "nodes_named loc (getAttribute tc0 ''name'') nodes = nodes"
        unfolding nodes_named_def using cl by (simp add: filter_id_conv)
      ultimately have "nodes_named loc (getAttribute tc0 ''name'') chs = nodes"
        using a(4) by (simp add: nodes_named_def)
      with cl have
        "map (\<lambda>n. valueroot (attrs n)) (nodes_named loc (getAttribute tc0 ''name'') chs) = cur"
        "\<forall>n \<in> set (nodes_named loc (getAttribute tc0 ''name'') chs).
           valueroot (attrs n) = None \<longrightarrow> valuenode (attrs n) = None"
        by simp_all
      with True p(1,2) show ?thesis by blast
    next
      case False
      with Cons.prems(3) \<open>is_element tc0 \<and> localName tc0 = ''element''\<close>
      have mem: "tc \<in> set (schema_children rest)" by (simp add: schema_children_Cons)
      with dist(1) have ne: "(getAttribute tc ''name'') \<noteq> (getAttribute tc0 ''name'')" by blast
      from Cons.IH[OF a(3) dist(2) mem] obtain minoccurs maxoccurs where
        r: "read_occurs tc = Inr (minoccurs, maxoccurs)"
           "map (\<lambda>n. valueroot (attrs n)) (nodes_named loc (getAttribute tc ''name'') chs2) = with_placeholders (lookup vc1 (getAttribute tc ''name'')) minoccurs"
           "\<forall>n \<in> set (nodes_named loc (getAttribute tc ''name'') chs2). valueroot (attrs n) = None \<longrightarrow> valuenode (attrs n) = None"
        by blast
      have "nodes_named loc (getAttribute tc ''name'') nodes = []"
        unfolding nodes_named_def filter_empty_conv using cl ne by simp
      then have "nodes_named loc (getAttribute tc ''name'') chs = nodes_named loc (getAttribute tc ''name'') chs2"
        using a(4) by (simp add: nodes_named_def)
      moreover have "lookup vc1 (getAttribute tc ''name'') = lookup vc (getAttribute tc ''name'')"
        using ne p(3) by (simp add: lookup_dict_pop)
      ultimately show ?thesis using r by simp
    qed
  qed
qed

lemma remove_redundant_removed:
  assumes "remove_redundant (Some vr) cl cur (Bounded m) h msgs = Inr (h1, msgs1)"
    and "int (length cur) > m" and "distinct (children_of h vr)"
  shows "(\<forall>e \<in> set (drop (nat m) cur). e \<notin> set (children_of h1 vr))
         \<and> msgs1 = msgs @ [TooManyChildren cl (length cur) m] \<and> shrinks h h1"
proof -
  from assms(1,2) have r: "removeChildren h vr (drop (nat m) cur) = Inr h1"
    and m: "msgs1 = msgs @ [TooManyChildren cl (length cur) m]"
    unfolding remove_redundant_def by (auto split: sum.splits)
  from removeChildren_gone[OF r assms(3)] removeChildren_shrinks[OF r] m show ?thesis by simp
qed

lemma init_children_removed:
  assumes "init_children dts tchs (Some vr) loc vc h msgs = Inr (chs, vc', h', msgs')"
    and "distinct (map (\<lambda>tc. getAttribute tc ''name'') (schema_children tchs))"
    and "tc \<in> set (schema_children tchs)"
    and "h vr \<noteq> None" and "distinct (children_of h vr)"
    and "read_occurs tc = Inr (minoccurs, Bounded m)"
    and "int (length (lookup vc (getAttribute tc ''name''))) > m"
  shows "(\<forall>e \<in> set (drop (nat m) (lookup vc (getAttribute tc ''name''))). e \<notin> set (children_of h' vr))
         \<and> TooManyChildren (loc @ [getAttribute tc ''name''])
               (length (lookup vc (getAttribute tc ''name''))) m \<in> set msgs'"
  using assms(1,2,3,4,5,7)
proof (induction tchs arbitrary: vc h msgs chs)
  case Nil
  then show ?case by (simp add: schema_children_def)
next
  case (Cons tc0 rest)
  show ?case
  proof (cases "is_element tc0 \<and> localName tc0 = ''element''")
    case False
    with Cons.prems(1) have "init_children dts rest (Some vr) loc vc h msgs = Inr (chs, vc', h', msgs')"
      by simp
    from Cons.IH[OF this _ _ Cons.prems(4,5,6)] Cons.prems(2,3) False show ?thesis
      by (simp add: schema_children_Cons)
  next
    case True
    from init_children_unfold[OF Cons.prems(1) True] obtain cur vc1 h1 msgs1 nodes h2 msgs2 chs2 where
      a: "prepare_child tc0 (Some vr) loc vc h msgs = Inr (cur, vc1, h1, msgs1)"
         "init_clones dts tc0 cur (loc @ [(getAttribute tc0 ''name'')]) h1 msgs1 = Inr (nodes, h2, msgs2)"
         "init_children dts rest (Some vr) loc vc1 h2 msgs2 = Inr (chs2, vc', h', msgs')"
      by blast
    from prepare_child_unfold[OF a(1)] obtain minO maxO where
      p: "read_occurs tc0 = Inr (minO, maxO)"
         "remove_redundant (Some vr) (loc @ [(getAttribute tc0 ''name'')]) (lookup vc (getAttribute tc0 ''name'')) maxO h msgs = Inr (h1, msgs1)"
         "vc1 = snd (dict_pop vc (getAttribute tc0 ''name'') [])"
      by blast
    have g1: "grows (h, msgs) (h1, msgs1)" using prepare_child_grows[OF a(1)] .
    have g2: "grows (h1, msgs1) (h2, msgs2)" using init_clones_grows'[OF a(2)] .
    have g3: "grows (h2, msgs2) (h', msgs')" using init_children_grows'[OF a(3)] .
    from g1 g2 have g12: "grows (h, msgs) (h2, msgs2)" by (rule grows_trans)
    from g2 g3 have g23: "grows (h1, msgs1) (h', msgs')" by (rule grows_trans)
    from Cons.prems(2) True have dist0: "getAttribute tc0 ''name'' \<notin> (\<lambda>tc. getAttribute tc ''name'') ` set (schema_children rest)"
      and "distinct (map (\<lambda>tc. getAttribute tc ''name'') (schema_children rest))"
      by (simp_all add: schema_children_Cons)
    then have dist: "\<forall>tc1 \<in> set (schema_children rest). getAttribute tc1 ''name'' \<noteq> getAttribute tc0 ''name''"
      "distinct (map (\<lambda>tc. getAttribute tc ''name'') (schema_children rest))"
      using notin_imageD by fast+
    show ?thesis
    proof (cases "tc = tc0")
      case True
      with p(1) assms(6) have "maxO = Bounded m" by simp
      with p(2) True have rr: "remove_redundant (Some vr) (loc @ [(getAttribute tc ''name'')]) (lookup vc (getAttribute tc ''name'')) (Bounded m) h msgs = Inr (h1, msgs1)"
        by simp
      from remove_redundant_removed[OF rr Cons.prems(6,5)]
      have gone: "\<forall>e \<in> set (drop (nat m) (lookup vc (getAttribute tc ''name''))). e \<notin> set (children_of h1 vr)"
        and m1: "msgs1 = msgs @ [TooManyChildren (loc @ [(getAttribute tc ''name'')]) (length (lookup vc (getAttribute tc ''name''))) m]"
        and s1: "shrinks h h1" by simp_all
      from shrinks_keeps(1)[OF s1 Cons.prems(4)] have "h1 vr \<noteq> None" .
      from g23 have "shrinks h1 h'" by (simp add: grows_def)
      from shrinks_keeps(2)[OF this \<open>h1 vr \<noteq> None\<close>]
      have "set (children_of h' vr) \<subseteq> set (children_of h1 vr)" .
      with gone have "\<forall>e \<in> set (drop (nat m) (lookup vc (getAttribute tc ''name''))). e \<notin> set (children_of h' vr)" by blast
      moreover from g23 m1 have "TooManyChildren (loc @ [(getAttribute tc ''name'')]) (length (lookup vc (getAttribute tc ''name''))) m \<in> set msgs'"
        by (auto simp: grows_def)
      ultimately show ?thesis by simp
    next
      case False
      with Cons.prems(3) \<open>is_element tc0 \<and> localName tc0 = ''element''\<close>
      have mem: "tc \<in> set (schema_children rest)" by (simp add: schema_children_Cons)
      with dist(1) have ne: "(getAttribute tc ''name'') \<noteq> (getAttribute tc0 ''name'')" by blast
      have l: "lookup vc1 (getAttribute tc ''name'') = lookup vc (getAttribute tc ''name'')"
        using ne p(3) by (simp add: lookup_dict_pop)
      from g12 have s: "shrinks h h2" by (simp add: grows_def)
      from shrinks_keeps[OF s Cons.prems(4)] Cons.prems(5)
      have h2: "h2 vr \<noteq> None" "distinct (children_of h2 vr)" by simp_all
      from Cons.IH[OF a(3) dist(2) mem h2] Cons.prems(6) l show ?thesis by simp
    qed
  qed
qed

lemma with_placeholders_fewer:
  assumes "map f nodes = with_placeholders entries minoccurs" "int (length entries) < minoccurs"
  shows "int (length nodes) = minoccurs"
    and "map f (take (length entries) nodes) = map Some entries"
    and "\<forall>p \<in> set (drop (length entries) nodes). f p = None"
proof -
  let ?k = "nat (minoccurs - int (length entries))"
  from assms(1) have m: "map f nodes = map Some entries @ replicate ?k None"
    by (simp add: with_placeholders_def)
  then have "length nodes = length entries + ?k"
    by (metis length_append length_map length_replicate)
  with assms(2) show "int (length nodes) = minoccurs" by simp
  have "map f (take (length entries) nodes) = take (length entries) (map f nodes)"
    by (simp add: take_map)
  with m show "map f (take (length entries) nodes) = map Some entries" by simp
  have "map f (drop (length entries) nodes) = drop (length entries) (map f nodes)"
    by (simp add: drop_map)
  with m have "map f (drop (length entries) nodes) = replicate ?k None" by simp
  then have "set (map f (drop (length entries) nodes)) \<subseteq> {None}"
    by (metis set_replicate_conv_if empty_subsetI subset_refl)
  then show "\<forall>p \<in> set (drop (length entries) nodes). f p = None" by auto
qed

lemma read_occurs_attributes:
  assumes "read_occurs tc = Inr (mn, mx)"
  shows "if getAttribute tc ''minOccurs'' = [] then mn = 1
         else py_int (getAttribute tc ''minOccurs'') = Some mn"
    and "if getAttribute tc ''maxOccurs'' = [] then mx = Bounded 1
         else if getAttribute tc ''maxOccurs'' = ''unbounded'' then mx = Unbounded
         else \<exists>m. py_int (getAttribute tc ''maxOccurs'') = Some m \<and> mx = Bounded m"
  using assms
  by (auto simp: read_occurs_def read_minOccurs_def read_maxOccurs_def Let_def
           split: option.splits if_splits sum.splits)

lemma with_placeholders_enough:
  "minoccurs \<le> int (length entries) \<Longrightarrow> with_placeholders entries minoccurs = map Some entries"
  by (simp add: with_placeholders_def)

text \<open>
  Claim C6. When \<^verbatim>\<open>Node.__init__\<close> returns, for every schema child (the names of the schema
  children being distinct, and no value element listed twice below its parent), with
  \<open>minoccurs\<close> and \<open>maxoccurs\<close> the numbers that the child's attributes \<^verbatim>\<open>minOccurs\<close> and
  \<^verbatim>\<open>maxOccurs\<close> declare (1 for an absent attribute, no bound for \<^verbatim>\<open>unbounded\<close>, else the integer
  written): the child nodes built for it carry the matching value entries in order, followed
  by \<^verbatim>\<open>minOccurs - len(entries)\<close> placeholders; when the entries are fewer than \<^verbatim>\<open>minOccurs\<close>,
  exactly \<^verbatim>\<open>minOccurs\<close> child nodes exist and those after the entries are empty placeholders
  (no value root, no value node); when the entries are at least \<^verbatim>\<open>minOccurs\<close>, no placeholder is
  built; when the entries exceed a finite \<^verbatim>\<open>maxOccurs\<close>, the entries beyond \<^verbatim>\<open>maxOccurs\<close> are no
  longer children of the value root and the message is printed.
\<close>

theorem Node_init_cardinality:
  assumes "Node_init dts t vnode loc h msgs = Inr (n, h', msgs')"
    and "distinct (map (\<lambda>tc. getAttribute tc ''name'') (schema_children (childNodes t)))"
    and "tc \<in> set (schema_children (childNodes t))"
    and "\<forall>vr. vnode = Some vr \<longrightarrow> distinct (children_of h vr)"
  shows "\<exists>minoccurs maxoccurs.
      (if getAttribute tc ''minOccurs'' = [] then minoccurs = 1
       else py_int (getAttribute tc ''minOccurs'') = Some minoccurs)
    \<and> (if getAttribute tc ''maxOccurs'' = [] then maxoccurs = Bounded 1
       else if getAttribute tc ''maxOccurs'' = ''unbounded'' then maxoccurs = Unbounded
       else \<exists>m. py_int (getAttribute tc ''maxOccurs'') = Some m \<and> maxoccurs = Bounded m)
    \<and> (let name = getAttribute tc ''name'';
           entries = matching_entries h vnode name;
           nodes = nodes_named loc name (children n)
       in map (\<lambda>c. valueroot (attrs c)) nodes = with_placeholders entries minoccurs
        \<and> (int (length entries) < minoccurs \<longrightarrow>
              int (length nodes) = minoccurs
            \<and> map (\<lambda>c. valueroot (attrs c)) (take (length entries) nodes) = map Some entries
            \<and> (\<forall>p \<in> set (drop (length entries) nodes).
                   valueroot (attrs p) = None \<and> valuenode (attrs p) = None))
        \<and> (minoccurs \<le> int (length entries) \<longrightarrow>
              map (\<lambda>c. valueroot (attrs c)) nodes = map Some entries)
        \<and> (\<forall>m vr. maxoccurs = Bounded m \<and> vnode = Some vr \<and> int (length entries) > m \<longrightarrow>
              (\<forall>e \<in> set (drop (nat m) entries). e \<notin> set (children_of h' vr))
            \<and> TooManyChildren (loc @ [name]) (length entries) m \<in> set msgs'))"
proof -
  from Node_init_unfold[OF assms(1)] obtain tag atts tchs vc chs vc1 h1 msgs1 where
    t: "t = Element tag atts tchs" and
    a: "init_valuechildren h vnode = Inr vc"
       "init_children dts tchs vnode loc vc h msgs = Inr (chs, vc1, h1, msgs1)"
       "finish_node dts t vnode loc chs vc1 h1 msgs1 = Inr (n, h', msgs')"
    by blast
  from finish_node_unfold[OF a(3)] have chs: "children n = chs" by blast
  have g: "grows (h1, msgs1) (h', msgs')" using finish_node_grows[OF a(3)] .
  from assms(2,3) t have d: "distinct (map (\<lambda>tc. getAttribute tc ''name'') (schema_children tchs))"
    and mem: "tc \<in> set (schema_children tchs)" by simp_all
  let ?name = "getAttribute tc ''name''"
  let ?entries = "matching_entries h vnode ?name"
  let ?nodes = "nodes_named loc ?name (children n)"
  have l: "lookup vc ?name = ?entries" using lookup_init_valuechildren[OF a(1)] .
  from init_children_nodes[OF a(2) d mem] l chs obtain minoccurs maxoccurs where
    r: "read_occurs tc = Inr (minoccurs, maxoccurs)"
       "map (\<lambda>c. valueroot (attrs c)) ?nodes = with_placeholders ?entries minoccurs"
       "\<forall>p \<in> set ?nodes. valueroot (attrs p) = None \<longrightarrow> valuenode (attrs p) = None"
    by auto
  note pin = read_occurs_attributes[OF r(1)]
  have fewer: "int (length ?nodes) = minoccurs
            \<and> map (\<lambda>c. valueroot (attrs c)) (take (length ?entries) ?nodes) = map Some ?entries
            \<and> (\<forall>p \<in> set (drop (length ?entries) ?nodes).
                   valueroot (attrs p) = None \<and> valuenode (attrs p) = None)"
    if "int (length ?entries) < minoccurs"
  proof -
    note w = with_placeholders_fewer[OF r(2) that]
    have "\<forall>p \<in> set (drop (length ?entries) ?nodes). valuenode (attrs p) = None"
      using w(3) r(3) by (meson in_set_dropD)
    with w show ?thesis by blast
  qed
  have enough: "map (\<lambda>c. valueroot (attrs c)) ?nodes = map Some ?entries"
    if "minoccurs \<le> int (length ?entries)"
    using r(2) with_placeholders_enough[OF that] by simp
  have more: "(\<forall>e \<in> set (drop (nat m) ?entries). e \<notin> set (children_of h' vr))
            \<and> TooManyChildren (loc @ [?name]) (length ?entries) m \<in> set msgs'"
    if "maxoccurs = Bounded m" "vnode = Some vr" "int (length ?entries) > m" for m vr
  proof -
    from that(2) a(1) have hv: "h vr \<noteq> None"
      by (auto simp: init_valuechildren_def split: option.splits)
    from that(2) assms(4) have dv: "distinct (children_of h vr)" by simp
    from r(1) that(1) have ro: "read_occurs tc = Inr (minoccurs, Bounded m)" by simp
    from that(3) l have len: "int (length (lookup vc ?name)) > m" by simp
    from a(2) that(2) have ic: "init_children dts tchs (Some vr) loc vc h msgs = Inr (chs, vc1, h1, msgs1)"
      by simp
    from init_children_removed[OF ic d mem hv dv ro len] l
    have gone: "\<forall>e \<in> set (drop (nat m) ?entries). e \<notin> set (children_of h1 vr)"
      and msg: "TooManyChildren (loc @ [?name]) (length ?entries) m \<in> set msgs1" by simp_all
    from init_children_grows'[OF ic] have "shrinks h h1" by (simp add: grows_def)
    from shrinks_keeps(1)[OF this hv] have h1v: "h1 vr \<noteq> None" .
    from g have "shrinks h1 h'" by (simp add: grows_def)
    from shrinks_keeps(2)[OF this h1v] gone
    have "\<forall>e \<in> set (drop (nat m) ?entries). e \<notin> set (children_of h' vr)" by blast
    moreover from g msg have "TooManyChildren (loc @ [?name]) (length ?entries) m \<in> set msgs'"
      by (auto simp: grows_def)
    ultimately show ?thesis by simp
  qed
  from pin r(2) fewer enough more show ?thesis
    unfolding Let_def by blast
qed

lemma built0_eq: "Node_init dts_int schema0 (Some 1) [] heap0 [] = Inr (root0, heap1, msgs0)"
proof -
  have "\<exists>r. built0 = Inr r"
    unfolding built0_def by (simp add: sample_defs init_defs)
  then obtain r where "built0 = Inr r" by blast
  then have "built0 = Inr (projr built0)" by (metis sum.sel(2))
  then show ?thesis
    unfolding root0_def heap1_def msgs0_def by (simp add: built0_def)
qed

lemma built2_eq: "Node_init dts_int schema2 (Some 1) [] heap3 [] = Inr (root2, heap4, diag2)"
proof -
  have "\<exists>r. built2 = Inr r"
    unfolding built2_def
    by (simp add: schema2_def schema2_d_def schema2_e_def schema2_f_def heap3_def dts_int_def
          element0_def init_defs)
  then obtain r where "built2 = Inr r" by blast
  then have "built2 = Inr (projr built2)" by (metis sum.sel(2))
  then show ?thesis
    unfolding root2_def heap4_def diag2_def by (simp add: built2_def)
qed


lemma py_int_samples:
  "py_int ''0'' = Some 0" "py_int ''1'' = Some 1" "py_int ''2'' = Some 2"
  by (simp_all add: py_int_def strip_def is_space_def digits_int_def is_digit_def
        nat_of_digits_def digit_val_def)

text \<open>
  In the first sample store the schema child \<open>a\<close> (\<^verbatim>\<open>minOccurs="0"\<close>, \<^verbatim>\<open>maxOccurs="unbounded"\<close>)
  has two value entries: two nodes and no placeholder. The child \<open>b\<close> (no bound declared, so
  exactly one occurrence) has two entries: the second is removed from the value root, with
  the message. The child \<open>g\<close> (no bound declared) has none: one empty placeholder is built.
  In the second sample store \<open>d\<close> (\<^verbatim>\<open>minOccurs="0"\<close>, \<^verbatim>\<open>maxOccurs="2"\<close>) has three entries: the
  third is removed, with the message. The child \<open>e\<close> (\<^verbatim>\<open>minOccurs="1"\<close>, \<^verbatim>\<open>maxOccurs="1"\<close>) has
  none: one placeholder. The child \<open>f\<close> (\<^verbatim>\<open>minOccurs="0"\<close>, \<^verbatim>\<open>maxOccurs="2"\<close>) has none: no node
  at all.
\<close>

theorem Node_init_cardinality_witness:
  "getAttribute schema0_a ''minOccurs'' = ''0''
   \<and> getAttribute schema0_a ''maxOccurs'' = ''unbounded''
   \<and> matching_entries heap0 (Some 1) ''a'' = [2, 4]
   \<and> map (\<lambda>c. valueroot (attrs c)) (nodes_named [] ''a'' (children root0)) = [Some 2, Some 4]
   \<and> getAttribute schema0_b ''minOccurs'' = [] \<and> getAttribute schema0_b ''maxOccurs'' = []
   \<and> matching_entries heap0 (Some 1) ''b'' = [3, 5]
   \<and> 5 \<notin> set (children_of heap1 1)
   \<and> TooManyChildren [''b''] 2 1 \<in> set msgs0
   \<and> getAttribute schema0_g ''minOccurs'' = [] \<and> getAttribute schema0_g ''maxOccurs'' = []
   \<and> matching_entries heap0 (Some 1) ''g'' = []
   \<and> map (\<lambda>c. (valueroot (attrs c), valuenode (attrs c))) (nodes_named [] ''g'' (children root0))
       = [(None, None)]
   \<and> getAttribute schema2_d ''minOccurs'' = ''0'' \<and> getAttribute schema2_d ''maxOccurs'' = ''2''
   \<and> matching_entries heap3 (Some 1) ''d'' = [2, 3, 4]
   \<and> 4 \<notin> set (children_of heap4 1)
   \<and> TooManyChildren [''d''] 3 2 \<in> set diag2
   \<and> getAttribute schema2_e ''minOccurs'' = ''1'' \<and> getAttribute schema2_e ''maxOccurs'' = ''1''
   \<and> matching_entries heap3 (Some 1) ''e'' = []
   \<and> map (\<lambda>c. (valueroot (attrs c), valuenode (attrs c))) (nodes_named [] ''e'' (children root2))
       = [(None, None)]
   \<and> getAttribute schema2_f ''minOccurs'' = ''0'' \<and> getAttribute schema2_f ''maxOccurs'' = ''2''
   \<and> matching_entries heap3 (Some 1) ''f'' = []
   \<and> nodes_named [] ''f'' (children root2) = []"
proof -
  have d0: "distinct (map (\<lambda>tc. getAttribute tc ''name'') (schema_children (childNodes schema0)))"
    and d2: "distinct (map (\<lambda>tc. getAttribute tc ''name'') (schema_children (childNodes schema2)))"
    by (simp_all add: schema0_def schema2_def schema2_d_def schema2_e_def schema2_f_def
          schema_children_def)
  have ma: "schema0_a \<in> set (schema_children (childNodes schema0))"
    and mb: "schema0_b \<in> set (schema_children (childNodes schema0))"
    and mg: "schema0_g \<in> set (schema_children (childNodes schema0))"
    by (simp_all add: schema0_def schema0_a_def schema0_b_def schema0_g_def schema_children_def)
  have md: "schema2_d \<in> set (schema_children (childNodes schema2))"
    and me: "schema2_e \<in> set (schema_children (childNodes schema2))"
    and mf: "schema2_f \<in> set (schema_children (childNodes schema2))"
    by (simp_all add: schema2_def schema2_d_def schema2_e_def schema2_f_def schema_children_def)
  have dv0: "\<forall>vr. Some (1::nat) = Some vr \<longrightarrow> distinct (children_of heap0 vr)"
    and dv2: "\<forall>vr. Some (1::nat) = Some vr \<longrightarrow> distinct (children_of heap3 vr)"
    by (simp_all add: heap0_def heap3_def children_of_def element0_def)
  have at: "getAttribute schema0_a ''name'' = ''a''"
    "getAttribute schema0_a ''minOccurs'' = ''0''"
    "getAttribute schema0_a ''maxOccurs'' = ''unbounded''"
    "getAttribute schema0_b ''name'' = ''b''"
    "getAttribute schema0_b ''minOccurs'' = []" "getAttribute schema0_b ''maxOccurs'' = []"
    "getAttribute schema0_g ''name'' = ''g''"
    "getAttribute schema0_g ''minOccurs'' = []" "getAttribute schema0_g ''maxOccurs'' = []"
    "getAttribute schema2_d ''name'' = ''d''"
    "getAttribute schema2_d ''minOccurs'' = ''0''" "getAttribute schema2_d ''maxOccurs'' = ''2''"
    "getAttribute schema2_e ''name'' = ''e''"
    "getAttribute schema2_e ''minOccurs'' = ''1''" "getAttribute schema2_e ''maxOccurs'' = ''1''"
    "getAttribute schema2_f ''name'' = ''f''"
    "getAttribute schema2_f ''minOccurs'' = ''0''" "getAttribute schema2_f ''maxOccurs'' = ''2''"
    by (simp_all add: schema0_a_def schema0_b_def schema0_g_def schema2_d_def schema2_e_def
          schema2_f_def)
  have en: "matching_entries heap0 (Some 1) ''a'' = [2, 4]"
    "matching_entries heap0 (Some 1) ''b'' = [3, 5]"
    "matching_entries heap0 (Some 1) ''g'' = []"
    "matching_entries heap3 (Some 1) ''d'' = [2, 3, 4]"
    "matching_entries heap3 (Some 1) ''e'' = []"
    "matching_entries heap3 (Some 1) ''f'' = []"
    by (simp_all add: matching_entries_def heap0_def heap3_def element0_def)
  from Node_init_cardinality [OF built0_eq d0 ma dv0] at en py_int_samples
  have a: "map (\<lambda>c. valueroot (attrs c)) (nodes_named [] ''a'' (children root0)) = [Some 2, Some 4]"
    by (auto simp add: Let_def)
  from Node_init_cardinality [OF built0_eq d0 mb dv0] at en
  have b: "5 \<notin> set (children_of heap1 1)" "TooManyChildren [''b''] 2 1 \<in> set msgs0"
    by (simp_all add: Let_def numeral_2_eq_2)
  from Node_init_cardinality [OF built0_eq d0 mg dv0] at en
  have g: "int (length (nodes_named [] ''g'' (children root0))) = 1"
    "\<forall>p \<in> set (nodes_named [] ''g'' (children root0)). valueroot (attrs p) = None \<and> valuenode (attrs p) = None"
    by (simp_all add: Let_def)
  from g have g': "map (\<lambda>c. (valueroot (attrs c), valuenode (attrs c))) (nodes_named [] ''g'' (children root0))
       = [(None, None)]"
    by (cases "nodes_named [] ''g'' (children root0)") auto
  from Node_init_cardinality [OF built2_eq d2 md dv2] at en py_int_samples
  have d: "4 \<notin> set (children_of heap4 1)" "TooManyChildren [''d''] 3 2 \<in> set diag2"
    by (auto simp add: Let_def numeral_2_eq_2 numeral_3_eq_3)
  from Node_init_cardinality [OF built2_eq d2 me dv2] at en py_int_samples
  have e: "int (length (nodes_named [] ''e'' (children root2))) = 1"
    "\<forall>p \<in> set (nodes_named [] ''e'' (children root2)). valueroot (attrs p) = None \<and> valuenode (attrs p) = None"
    by (auto simp add: Let_def)
  from e have e': "map (\<lambda>c. (valueroot (attrs c), valuenode (attrs c))) (nodes_named [] ''e'' (children root2))
       = [(None, None)]"
    by (cases "nodes_named [] ''e'' (children root2)") auto
  from Node_init_cardinality [OF built2_eq d2 mf dv2] at en py_int_samples
  have f: "nodes_named [] ''f'' (children root2) = []"
    by (auto simp add: Let_def)
  from at en a b g' d e' f show ?thesis by simp
qed

subsection \<open>Path round trip\<close>

lemma split_nonempty: "str_split sep s \<noteq> []"
  by (induction s) (auto split: list.splits)

lemma split_no_sep:
  "sep \<notin> set w \<Longrightarrow> str_split sep (w @ rest) = (case str_split sep rest of [] \<Rightarrow> [w] | x # xs \<Rightarrow> (w @ x) # xs)"
  using split_nonempty[of sep rest] by (induction w) (auto split: list.splits)

lemma split_plain: "sep \<notin> set w \<Longrightarrow> str_split sep w = [w]"
  using split_no_sep[of sep w "[]"] by simp

lemma split_join:
  "ws \<noteq> [] \<Longrightarrow> \<forall>w \<in> set ws. sep \<notin> set w \<Longrightarrow> str_split sep (str_join [sep] ws) = ws"
proof (induction "[sep]" ws rule: str_join.induct)
  case 1
  then show ?case by simp
next
  case (2 w)
  then show ?case by (simp add: split_plain)
next
  case (3 w v ws)
  then show ?case by (simp add: split_no_sep)
qed

lemma parse_plain: "plain_name nm \<Longrightarrow> parse_childname nm = Inr (nm, None)"
  by (auto simp: plain_name_def parse_childname_def)

lemma find_child_first:
  assumes "i < length chs"
    and "list_all (\<lambda>c. location (attrs c) \<noteq> []) chs"
    and "list_all (\<lambda>c. last (location (attrs c)) \<noteq> nm) (take i chs)"
    and "last (location (attrs (chs ! i))) = nm"
  shows "find_child h chs nm None k ich = Inr (Some (k + i))"
  using assms
proof (induction chs arbitrary: i k ich)
  case Nil
  then show ?case by simp
next
  case (Cons c chs)
  show ?case
  proof (cases i)
    case 0
    with Cons.prems show ?thesis by (simp add: getId_def)
  next
    case (Suc j)
    with Cons.prems have "find_child h chs nm None (k + 1) ich = Inr (Some (k + 1 + j))"
      by (intro Cons.IH) auto
    with Suc Cons.prems show ?thesis by (simp add: getId_def)
  qed
qed

lemma wf_locations_children:
  "wf_locations n \<Longrightarrow> list_all (\<lambda>c. location (attrs c) \<noteq> [] \<and> butlast (location (attrs c)) = location (attrs n) \<and> wf_locations c) (children n)"
  by (cases n) simp

lemma location_along:
  "wf_locations n \<Longrightarrow> node_at n p = Some m \<Longrightarrow> location (attrs m) = location (attrs n) @ names_along n p"
proof (induction p arbitrary: n)
  case Nil
  then show ?case by simp
next
  case (Cons i p)
  then have i: "i < length (children n)" by (simp split: if_splits)
  let ?c = "children n ! i"
  from wf_locations_children[OF Cons.prems(1)] i
  have c: "location (attrs ?c) \<noteq> []" "butlast (location (attrs ?c)) = location (attrs n)" "wf_locations ?c"
    by (auto simp: list_all_length)
  from Cons.prems i have "node_at ?c p = Some m" by simp
  from Cons.IH[OF c(3) this] have "location (attrs m) = location (attrs ?c) @ names_along ?c p" .
  moreover from c have "location (attrs ?c) = location (attrs n) @ [last (location (attrs ?c))]"
    by (metis append_butlast_last_id)
  ultimately show ?case by simp
qed

lemma node_at_append:
  "node_at n q = Some m \<Longrightarrow> node_at n (q @ p) = node_at m p"
  by (induction q arbitrary: n) (auto split: if_splits)

lemma wf_locations_at:
  "wf_locations n \<Longrightarrow> node_at n q = Some m \<Longrightarrow> wf_locations m"
proof (induction q arbitrary: n)
  case (Cons i q)
  then have i: "i < length (children n)" by (simp split: if_splits)
  from wf_locations_children[OF Cons.prems(1)] i have "wf_locations (children n ! i)"
    by (auto simp: list_all_length)
  with Cons i show ?case by simp
qed simp

lemma getLocation_loop_along:
  assumes "wf_locations rt" "node_at rt q = Some m" "node_at m p = Some n" "first_named m p"
  shows "getLocation_loop h rt self (Some q) (names_along m p) = Inr (Some (q @ p))"
  using assms(2-)
proof (induction p arbitrary: q m)
  case Nil
  then show ?case by simp
next
  case (Cons i p)
  let ?c = "children m ! i"
  let ?nm = "last (location (attrs ?c))"
  from Cons.prems have i: "i < length (children m)" and pl: "plain_name ?nm"
    and fst: "list_all (\<lambda>c. last (location (attrs c)) \<noteq> ?nm) (take i (children m))"
    and rest: "first_named ?c p" by auto
  have wm: "wf_locations m" using wf_locations_at[OF assms(1) Cons.prems(1)] .
  from wf_locations_children[OF wm]
  have ne: "list_all (\<lambda>c. location (attrs c) \<noteq> []) (children m)"
    by (auto simp: list_all_iff)
  have fc: "find_child h (children m) ?nm None 0 0 = Inr (Some i)"
    using find_child_first[OF i ne fst refl, of h 0 0] by simp
  have at: "node_at rt (q @ [i]) = Some ?c"
    using node_at_append[OF Cons.prems(1), of "[i]"] i by simp
  from Cons.prems i have "node_at ?c p = Some n" by simp
  from Cons.IH[OF at this rest]
  have "getLocation_loop h rt self (Some (q @ [i])) (names_along ?c p) = Inr (Some (q @ i # p))"
    by simp
  moreover from pl have "?nm \<noteq> ''..''" "?nm \<noteq> []" "?nm \<noteq> ''.''" by (auto simp: plain_name_def)
  ultimately show ?case
    using parse_plain[OF pl] fc Cons.prems(1) by simp
qed

lemma names_plain:
  "first_named m p \<Longrightarrow> \<forall>w \<in> set (names_along m p). CHR ''/'' \<notin> set w"
  by (induction p arbitrary: m) (auto simp: plain_name_def)

lemma init_clones_wf:
  assumes P: "\<And>v h msgs n h' msgs'. Node_init dts tc v cl h msgs = Inr (n, h', msgs')
                \<Longrightarrow> wf_locations n"
  shows "init_clones dts tc cur cl h msgs = Inr (ns, h', msgs') \<Longrightarrow> \<forall>n \<in> set ns. wf_locations n"
proof (induction cur arbitrary: h msgs ns)
  case Nil
  then show ?case by simp
next
  case (Cons v rest)
  from init_clones_unfold[OF Cons.prems] obtain n1 h1 msgs1 ns2 where
    a: "Node_init dts tc v cl h msgs = Inr (n1, h1, msgs1)"
       "init_clones dts tc rest cl h1 msgs1 = Inr (ns2, h', msgs')" "ns = n1 # ns2"
    by blast
  from P[OF a(1)] Cons.IH[OF a(2)] a(3) show ?case by simp
qed

lemma init_children_wf:
  assumes P: "\<And>tc v cl h msgs n h' msgs'. tc \<in> set tchs \<Longrightarrow>
                Node_init dts tc v cl h msgs = Inr (n, h', msgs') \<Longrightarrow> wf_locations n"
  shows "init_children dts tchs vroot loc vc h msgs = Inr (chs, vc', h', msgs')
           \<Longrightarrow> \<forall>c \<in> set chs. wf_locations c"
  using P
proof (induction tchs arbitrary: vc h msgs chs)
  case Nil
  then show ?case by simp
next
  case (Cons tc rest)
  have Prest: "wf_locations n"
    if "tc' \<in> set rest" "Node_init dts tc' v cl h msgs = Inr (n, h', msgs')"
    for tc' v cl h msgs n h' msgs'
    by (rule Cons.prems(2)[OF _ that(2)]) (simp add: that(1))
  show ?case
  proof (cases "is_element tc \<and> localName tc = ''element''")
    case False
    with Cons.prems(1) have "init_children dts rest vroot loc vc h msgs = Inr (chs, vc', h', msgs')"
      by simp
    from Cons.IH[OF this Prest] show ?thesis .
  next
    case True
    from init_children_unfold[OF Cons.prems(1) True] obtain cur vc1 h1 msgs1 nodes h2 msgs2 chs2 where
      a: "prepare_child tc vroot loc vc h msgs = Inr (cur, vc1, h1, msgs1)"
         "init_clones dts tc cur (loc @ [getAttribute tc ''name'']) h1 msgs1 = Inr (nodes, h2, msgs2)"
         "init_children dts rest vroot loc vc1 h2 msgs2 = Inr (chs2, vc', h', msgs')"
         "chs = nodes @ chs2"
      by blast
    have Phead: "wf_locations n"
      if "Node_init dts tc v cl h msgs = Inr (n, h', msgs')" for v cl h msgs n h' msgs'
      by (rule Cons.prems(2)[OF _ that]) simp
    have w1: "\<forall>n \<in> set nodes. wf_locations n"
      by (rule init_clones_wf[OF Phead a(2)])
    have w2: "\<forall>c \<in> set chs2. wf_locations c" using Cons.IH[OF a(3) Prest] .
    from w1 w2 a(4) show ?thesis by auto
  qed
qed

lemma Node_init_wf:
  "Node_init dts t vnode loc h msgs = Inr (n, h', msgs') \<Longrightarrow> wf_locations n"
proof (induction t arbitrary: vnode loc h msgs n h' msgs')
  case (Element tag atts tchs)
  from Node_init_unfold[OF Element.prems] obtain vc chs vc1 h1 msgs1 where
    a: "init_children dts tchs vnode loc vc h msgs = Inr (chs, vc1, h1, msgs1)"
       "finish_node dts (Element tag atts tchs) vnode loc chs vc1 h1 msgs1 = Inr (n, h', msgs')"
    by auto
  have w: "\<forall>c \<in> set chs. wf_locations c"
    by (rule init_children_wf[OF _ a(1)]) (rule Element.IH)
  from init_children_locations[OF a(1)]
  have l: "\<forall>c \<in> set chs. location (attrs c) \<noteq> [] \<and> butlast (location (attrs c)) = loc"
    by fastforce
  from finish_node_unfold[OF a(2)] have f: "children n = chs" "location (attrs n) = loc"
    by blast+
  from w l f show ?case by (cases n) (simp add: list_all_iff)
next
  case (CharacterData s)
  then show ?case by simp
qed

text \<open>
  The constructor builds a tree with consistent locations, below the location it is given:
  the store calls it with the empty location.
\<close>

lemma Node_init_wf_locations:
  assumes "Node_init dts t vnode loc h msgs = Inr (n, h', msgs')"
  shows "wf_locations n" and "location (attrs n) = loc"
  using Node_init_wf[OF assms] Node_init_attrs[OF assms] by simp_all

lemma built3_eq: "Node_init dts_int schema3 (Some 1) [] heap5 [] = Inr (root3, heap6, [])"
proof -
  have "\<exists>n h. built3 = Inr (n, h, [])"
    unfolding built3_def
    by (simp add: schema3_def heap5_def dts_int_def element0_def init_defs)
  then obtain n h where "built3 = Inr (n, h, [])" by blast
  then show ?thesis
    unfolding root3_def heap6_def by (simp add: built3_def)
qed

lemma root3_eq: "root3 =
  Node \<lparr>valid = True, templatenode = schema3, valueroot = Some 1, valuenode = Some 1,
          location = [], visible = True, grouponly = [[]]\<rparr>
   [Node \<lparr>valid = True,
            templatenode = Element ''element'' [(''name'', ''x/y''), (''type'', ''int'')] [],
            valueroot = None, valuenode = None, location = [''x/y''], visible = True,
            grouponly = [[]]\<rparr> []]"
  unfolding root3_def built3_def
  by (simp add: schema3_def heap5_def dts_int_def element0_def init_defs)

text \<open>
  Claim C9, as amended. In a tree whose root has the empty location and in which the
  location of every child is the location of its parent followed by the child's own name
  (as \<^verbatim>\<open>Node.__init__\<close> builds it from the empty location), for every node such that each
  node on the way from the root to it is the first of its siblings to carry its name, and
  each of these names is plain (not empty, not \<^verbatim>\<open>.\<close> or \<^verbatim>\<open>..\<close>, without a slash, and not
  both ending in \<^verbatim>\<open>]\<close> and containing \<^verbatim>\<open>[\<close>): resolving the node's location joined with
  slashes, from the root, yields that node.
\<close>

theorem getitem_location_first_named:
  assumes "wf_locations rt" and "location (attrs rt) = []"
    and "node_at rt p = Some n" and "first_named rt p"
  shows "getitem h rt [] (str_join ''/'' (location (attrs n))) = Inr (Some p)"
proof -
  have loc: "location (attrs n) = names_along rt p"
    using location_along[OF assms(1) assms(3)] assms(2) by simp
  have "getLocation_loop h rt [] (Some []) (names_along rt p) = Inr (Some ([] @ p))"
    by (rule getLocation_loop_along[OF assms(1) _ assms(3) assms(4)]) simp
  then have main: "getLocation_loop h rt [] (Some []) (names_along rt p) = Inr (Some p)" by simp
  show ?thesis
  proof (cases p)
    case Nil
    then show ?thesis unfolding getitem_def getLocation_def loc
      by (simp add: parse_childname_def endswith_def)
  next
    case (Cons i p')
    then have "names_along rt p \<noteq> []" by simp
    from split_join[OF this names_plain[OF assms(4)]] main
    show ?thesis unfolding getitem_def getLocation_def loc by simp
  qed
qed

text \<open>
  In the sample store, built by the constructor, the node \<open>c\<close> in the group \<open>g\<close> is found
  again from its location.
\<close>

theorem getitem_location_first_named_witness:
  "wf_locations root0 \<and> location (attrs root0) = []
   \<and> map_option (location \<circ> attrs) (node_at root0 [4, 0]) = Some [''g'', ''c'']
   \<and> first_named root0 [4, 0]
   \<and> getitem heap1 root0 [] ''g/c'' = Inr (Some [4, 0])"
proof -
  let ?c = "children (children root0 ! 4) ! 0"
  note w = Node_init_wf_locations[OF built0_eq]
  have n: "node_at root0 [4, 0] = Some ?c" and lc: "location (attrs ?c) = [''g'', ''c'']"
    and f: "first_named root0 [4, 0]"
    by (simp_all add: root0_eq plain_name_def endswith_def)
  from getitem_location_first_named [OF w n f, of heap1] lc
  have "getitem heap1 root0 [] ''g/c'' = Inr (Some [4, 0])" by simp
  with w n lc f show ?thesis by simp
qed

text \<open>
  Claim C9 as stated fails on a repeated element: in the sample store the second node \<open>a\<close>
  has the location \<open>a\<close>, which resolves to the first. It fails in the same way on the node
  that the constructor builds for the second value entry \<open>b\<close>, although \<open>b\<close> may occur only
  once. And it fails on a name that is not plain: in the third sample store, whose locations
  are consistent, the location of the only child \<^verbatim>\<open>x/y\<close> resolves to no node.
\<close>

theorem getitem_location_counterexample:
  "node_at root0 [1] \<noteq> None
   \<and> getitem heap1 root0 [] (str_join ''/'' (location (attrs (the (node_at root0 [1])))))
       \<noteq> Inr (Some [1])
   \<and> map_option (location \<circ> attrs) (node_at root0 [1]) = Some [''a'']
   \<and> getitem heap1 root0 [] ''a'' = Inr (Some [0])
   \<and> map_option (location \<circ> attrs) (node_at root0 [3]) = Some [''b'']
   \<and> getitem heap1 root0 [] ''b'' = Inr (Some [2])
   \<and> wf_locations root3 \<and> location (attrs root3) = []
   \<and> map_option (location \<circ> attrs) (node_at root3 [0]) = Some [''x/y'']
   \<and> getitem heap6 root3 [] ''x/y'' = Inr None"
  by (simp add: root0_eq root3_eq getitem_def getLocation_def parse_childname_def endswith_def
        getId_def)


subsection \<open>Conditions without a value to compare\<close>

lemma root1_eq: "root1 =
  Node \<lparr>valid = True, templatenode = schema1, valueroot = Some 1, valuenode = Some 1,
          location = [], visible = True, grouponly = [[]]\<rparr>
   [Node \<lparr>valid = True,
            templatenode = Element ''element'' [(''name'', ''mode''), (''type'', ''int'')]
              [Element ''dependentvariables'' []
                [Element ''dependentvariable'' [(''path'', ''extra''), (''type'', ''visibility'')] []]],
            valueroot = None, valuenode = None, location = [''mode''], visible = True,
            grouponly = [[]]\<rparr> [],
    Node \<lparr>valid = True,
            templatenode = Element ''element'' [(''name'', ''extra''), (''type'', ''int'')] [cond1],
            valueroot = None, valuenode = None, location = [''extra''], visible = True,
            grouponly = [[]]\<rparr> []]"
  unfolding root1_def
  by (simp add: schema1_def heap2_def dts_int_def element0_def cond1_def init_defs)

lemma checkCondition_local:
  assumes "getAttribute c ''type'' = ''eq'' \<or> getAttribute c ''type'' = ''ne''"
    and "getAttribute c ''source'' = [] \<or> Some (getAttribute c ''source'') = ownstorename"
  shows "checkCondition dts self c ownerstore ownernode ownstorename
           = check_comparison dts self c ownerstore ownernode"
proof (cases c)
  case (CharacterData s)
  with assms(1) show ?thesis by simp
next
  case (Element tag atts chs)
  from assms(1) have "hasAttribute c ''type''"
    unfolding Element by (auto split: option.splits)
  with assms show ?thesis unfolding Element by auto
qed

text \<open>
  Claim C2. For a condition of type \<^verbatim>\<open>eq\<close> or \<^verbatim>\<open>ne\<close>, evaluated in the store itself or in the
  other store that its \<^verbatim>\<open>source\<close> names: when the node it refers to has no value, its own
  value being empty and the default store giving none, \<^verbatim>\<open>checkCondition\<close> returns \<^verbatim>\<open>True\<close>.
\<close>

theorem checkCondition_without_value:
  assumes "getAttribute nodeCondition ''type'' = ''eq'' \<or> getAttribute nodeCondition ''type'' = ''ne''"
    and "evaluating_store self nodeCondition ownstorename = Some es"
    and "condition_target es nodeCondition ownerstore ownernode = Inr (refstore, q)"
    and "getValue dts refstore q True = Inr None"
  shows "checkCondition dts self nodeCondition ownerstore ownernode ownstorename = Inr True"
proof -
  let ?src = "getAttribute nodeCondition ''source''"
  have cmp: "check_comparison dts es nodeCondition ownerstore ownernode = Inr True"
    using assms(3,4) by (simp add: check_comparison_def)
  show ?thesis
  proof (cases "?src \<noteq> [] \<and> Some ?src \<noteq> ownstorename")
    case False
    with assms(2) have "es = self" by (simp add: evaluating_store_def)
    with checkCondition_local[OF assms(1), of ownstorename dts self ownerstore ownernode] False cmp
    show ?thesis by auto
  next
    case True
    with assms(2) have other: "map_of (otherstores self) ?src = Some es"
      by (simp add: evaluating_store_def)
    have "checkCondition dts es nodeCondition ownerstore ownernode (Some ?src)
            = check_comparison dts es nodeCondition ownerstore ownernode"
      by (rule checkCondition_local[OF assms(1)]) simp
    moreover have "checkCondition dts self nodeCondition ownerstore ownernode ownstorename
            = checkCondition dts es nodeCondition ownerstore ownernode (Some ?src)"
    proof (cases nodeCondition)
      case (CharacterData s)
      with assms(1) show ?thesis by simp
    next
      case (Element tag atts chs)
      from assms(1) have "hasAttribute nodeCondition ''type''"
        unfolding Element by (auto split: option.splits)
      with True other show ?thesis unfolding Element by simp
    qed
    ultimately show ?thesis using cmp by simp
  qed
qed

text \<open>
  In the second sample the condition of \<open>extra\<close> refers to \<open>mode\<close>, which has no value.
\<close>

theorem checkCondition_without_value_witness:
  "evaluating_store store1 cond1 None = Some store1
   \<and> condition_target store1 cond1 store1 [1] = Inr (store1, [0])
   \<and> getValue dts_int store1 [0] True = Inr None
   \<and> checkCondition dts_int store1 cond1 store1 [1] None = Inr True"
proof -
  have t: "getAttribute cond1 ''type'' = ''eq'' \<or> getAttribute cond1 ''type'' = ''ne''"
    by (simp add: cond1_def)
  have e: "evaluating_store store1 cond1 None = Some store1"
    by (simp add: evaluating_store_def cond1_def)
  have c: "condition_target store1 cond1 store1 [1] = Inr (store1, [0])"
    by (simp add: Let_def condition_target_def cond1_def parent_def store1_def state1_def root1_eq
          getitem_def getLocation_def parse_childname_def endswith_def getId_def)
  have g: "getValue dts_int store1 [0] True = Inr None"
    by (simp add: store1_def state1_def root1_eq lookup_node_def own_value_def)
  from checkCondition_without_value [OF t e c g] e c g show ?thesis by simp
qed

subsection \<open>Denied changes\<close>

lemma with_events_Nil [simp]: "with_events st [] = st"
  by (cases st) (simp add: with_events_def)

lemma with_events_append [simp]: "with_events (with_events st a) b = with_events st (a @ b)"
  by (simp add: with_events_def)

lemma state_with_events [simp]:
  "root (state (with_events st evs)) = root (state st)"
  "xmldocument (state (with_events st evs)) = xmldocument (state st)"
  "interfaces (state (with_events st evs)) = interfaces (state st)"
  "blockedinterfaces (state (with_events st evs)) = blockedinterfaces (state st)"
  "events (state (with_events st evs)) = events (state st) @ evs"
  by (simp_all add: with_events_def)

lemma emit_with_events: "emit ev st = (Inr (), with_events st [ev])"
  by (simp add: emit_def modifyS_def with_events_def)

lemma node_at_butlast:
  "node_at r p = Some n \<Longrightarrow> p \<noteq> [] \<Longrightarrow> \<exists>m. node_at r (butlast p) = Some m"
proof (induction p arbitrary: r)
  case Nil
  then show ?case by simp
next
  case (Cons i p)
  show ?case
  proof (cases "p = []")
    case True
    then show ?thesis by simp
  next
    case False
    with Cons show ?thesis by (auto split: if_splits)
  qed
qed

lemma isHidden_total:
  "node_at r p = Some n \<Longrightarrow> \<exists>b. isHidden r p = Inr b"
proof (induction "length p" arbitrary: p n)
  case 0
  then show ?case by (subst isHidden.simps) (auto simp: lookup_node_def)
next
  case (Suc k)
  then have ne: "p \<noteq> []" by auto
  from node_at_butlast[OF Suc.prems ne] obtain m where m: "node_at r (butlast p) = Some m" by blast
  from Suc.hyps(2) ne have "k = length (butlast p)" by simp
  from Suc.hyps(1)[OF this m] obtain b where "isHidden r (butlast p) = Inr b" by blast
  with Suc.prems ne show ?case by (subst isHidden.simps) (auto simp: lookup_node_def)
qed

lemma iface_onBeforeChange_result:
  assumes "node_at (root (state st)) p = Some n" and "valid (attrs n)"
  shows "iface_onBeforeChange i p nv st =
     (if ''beforeChange'' \<in> set (connected (interfaces (state st) ! i))
         \<and> \<not> (isHidden (root (state st)) p = Inr True
               \<and> blockNotifyOfHiddenNodes (interfaces (state st) ! i))
      then (Inr (beforeChange (interfaces (state st) ! i) p nv), with_events st [BeforeChange i p nv])
      else (Inr True, st))"
proof -
  from isHidden_total[OF assms(1)] obtain b where b: "isHidden (root (state st)) p = Inr b" by blast
  show ?thesis
    using assms b
    by (simp add: iface_onBeforeChange_def bindS_def the_node_def readS_def lookup_node_def
          returnS_def raiseS_def emit_with_events)
qed

lemma denies_with_events [simp]: "denies (with_events st evs) p nv i = denies st p nv i"
  by (simp add: denies_def)

lemma onBeforeChange_loop_result:
  assumes "node_at (root (state st)) p = Some n" and "valid (attrs n)"
    and "\<forall>i \<in> set is. i < length (interfaces (state st)) \<and> i \<notin> blockedinterfaces (state st)"
  shows "\<exists>evs. onBeforeChange_loop is p nv st = (Inr (\<forall>i \<in> set is. \<not> denies st p nv i), with_events st evs)
               \<and> (\<forall>ev \<in> set evs. \<exists>i. ev = BeforeChange i p nv)"
  using assms
proof (induction "is" arbitrary: st)
  case Nil
  show ?case by (intro exI[of _ "[]"]) (simp add: returnS_def)
next
  case (Cons i rest)
  let ?iface = "interfaces (state st) ! i"
  from Cons.prems(3) have act: "i < length (interfaces (state st))" "i \<notin> blockedinterfaces (state st)"
    by simp_all
  note r = iface_onBeforeChange_result[OF Cons.prems(1,2), of i nv]
  show ?case
  proof (cases "''beforeChange'' \<in> set (connected ?iface)
         \<and> \<not> (isHidden (root (state st)) p = Inr True \<and> blockNotifyOfHiddenNodes ?iface)")
    case False
    with r have s: "iface_onBeforeChange i p nv st = (Inr True, st)" by auto
    from False have nd: "\<not> denies st p nv i" by (auto simp: denies_def)
    from Cons.prems(3) have rest: "\<forall>j \<in> set rest. j < length (interfaces (state st)) \<and> j \<notin> blockedinterfaces (state st)"
      by simp
    from Cons.IH[OF Cons.prems(1,2) rest] obtain evs where
      e: "onBeforeChange_loop rest p nv st = (Inr (\<forall>i \<in> set rest. \<not> denies st p nv i), with_events st evs)"
         "\<forall>ev \<in> set evs. \<exists>i. ev = BeforeChange i p nv" by blast
    from s e(1) nd have "onBeforeChange_loop (i # rest) p nv st
        = (Inr (\<forall>i \<in> set (i # rest). \<not> denies st p nv i), with_events st evs)"
      by (simp add: bindS_def)
    with e(2) show ?thesis by blast
  next
    case True
    with r have s: "iface_onBeforeChange i p nv st
        = (Inr (beforeChange ?iface p nv), with_events st [BeforeChange i p nv])" by auto
    show ?thesis
    proof (cases "beforeChange ?iface p nv")
      case False
      with True act have d: "denies st p nv i" by (simp add: denies_def)
      from s False have "onBeforeChange_loop (i # rest) p nv st
          = (Inr False, with_events st [BeforeChange i p nv])"
        by (simp add: bindS_def returnS_def)
      with d have "onBeforeChange_loop (i # rest) p nv st
          = (Inr (\<forall>i \<in> set (i # rest). \<not> denies st p nv i), with_events st [BeforeChange i p nv])"
        by simp
      then show ?thesis by (intro exI[of _ "[BeforeChange i p nv]"]) simp
    next
      case allowed: True
      then have nd: "\<not> denies st p nv i" by (simp add: denies_def)
      let ?st = "with_events st [BeforeChange i p nv]"
      have p1: "node_at (root (state ?st)) p = Some n" using Cons.prems(1) by simp
      have rest: "\<forall>j \<in> set rest. j < length (interfaces (state ?st)) \<and> j \<notin> blockedinterfaces (state ?st)"
        using Cons.prems(3) by simp
      from Cons.IH[OF p1 Cons.prems(2) rest] obtain evs where
        e: "onBeforeChange_loop rest p nv ?st = (Inr (\<forall>i \<in> set rest. \<not> denies ?st p nv i), with_events ?st evs)"
           "\<forall>ev \<in> set evs. \<exists>i. ev = BeforeChange i p nv" by blast
      from s allowed e(1) nd have "onBeforeChange_loop (i # rest) p nv st
          = (Inr (\<forall>i \<in> set (i # rest). \<not> denies st p nv i), with_events st (BeforeChange i p nv # evs))"
        by (simp add: bindS_def)
      moreover from e(2) have "\<forall>ev \<in> set (BeforeChange i p nv # evs). \<exists>i. ev = BeforeChange i p nv"
        by auto
      ultimately show ?thesis by blast
    qed
  qed
qed

lemma onBeforeChange_result:
  assumes "node_at (root (state st)) p = Some n" and "valid (attrs n)"
  shows "\<exists>evs. onBeforeChange p nv st = (Inr (\<not> (\<exists>i. denies st p nv i)), with_events st evs)
               \<and> (\<forall>ev \<in> set evs. \<exists>i. ev = BeforeChange i p nv)"
proof -
  have a: "\<forall>i \<in> set (active_interfaces st). i < length (interfaces (state st)) \<and> i \<notin> blockedinterfaces (state st)"
    by (simp add: active_interfaces_def)
  have "(\<forall>i \<in> set (active_interfaces st). \<not> denies st p nv i) = (\<not> (\<exists>i. denies st p nv i))"
    by (auto simp: active_interfaces_def denies_def)
  with onBeforeChange_loop_result[OF assms a, of nv] show ?thesis
    by (simp add: onBeforeChange_def)
qed

text \<open>
  Claim C4. For every node of the store and every proposed value, \<^verbatim>\<open>None\<close> included: when
  \<^verbatim>\<open>setValue\<close> gets as far as asking the interfaces and one of them denies the change,
  \<^verbatim>\<open>setValue\<close> returns, without exception, \<^verbatim>\<open>False\<close> (for the value \<^verbatim>\<open>None\<close>: Python's \<^verbatim>\<open>None\<close>,
  which is all it ever returns then), and the store it leaves differs from the store before
  only by the record of the calls of \<^verbatim>\<open>beforeChange\<close> handlers: the node tree and the value
  document are the same, no element was created, and no handler \<^verbatim>\<open>afterChange\<close> was called.
\<close>

theorem setValue_denied:
  assumes "node_at (root (state st)) p = Some n" and "valid (attrs n)"
    and "asks_interfaces dts st p n value"
    and "denies st p value i"
  shows "\<exists>evs. setValue dts fuel depth p value st
            = Some (Inr (case value of None \<Rightarrow> None | Some v \<Rightarrow> Some False), with_events st evs)
          \<and> (\<forall>ev \<in> set evs. \<exists>j. ev = BeforeChange j p value)"
proof -
  from onBeforeChange_result[OF assms(1,2), of "value"] obtain evs where
    e0: "onBeforeChange p value st = (Inr (\<not> (\<exists>i. denies st p value i)), with_events st evs)"
    and e2: "\<forall>ev \<in> set evs. \<exists>j. ev = BeforeChange j p value" by blast
  from assms(4) have "\<exists>i. denies st p value i" by blast
  with e0 have e1: "onBeforeChange p value st = (Inr False, with_events st evs)" by simp
  note e = e1 e2
  show ?thesis
  proof (cases "value")
    case None
    with assms(3) obtain vn where vn: "valuenode (attrs n) = Some vn" "p \<noteq> []" "\<not> canHaveClones n"
      by (auto simp: asks_interfaces_def)
    from None e(1) have "onBeforeChange p None st = (Inr False, with_events st evs)" by simp
    with vn assms(1) None have "setValue dts fuel depth p value st = Some (Inr None, with_events st evs)"
      by (simp add: setValue_def liftP_def clearValue_def bindS_def the_node_def readS_def
            lookup_node_def returnS_def)
    with e(2) None show ?thesis by auto
  next
    case (Some v)
    with assms(3) obtain curval where c: "own_value dts (state st) n = Inr curval" "curval \<noteq> Some v"
      by (auto simp: asks_interfaces_def split: sum.splits)
    from Some e(1) have "onBeforeChange p (Some v) st = (Inr False, with_events st evs)" by simp
    with c assms(1) Some have "setValue dts fuel depth p value st = Some (Inr (Some False), with_events st evs)"
      by (simp add: setValue_def liftP_def bindP_def the_node_def readS_def lookup_node_def returnS_def)
    with e(2) Some show ?thesis by auto
  qed
qed

lemma heap1_values:
  "heap1 2 = Some (element0 ''a'' 1 [] ''1'')"
  "heap1 3 = Some (element0 ''b'' 1 [] ''2'')"
  "heap1 4 = Some (element0 ''a'' 1 [] ''3'')"
  "heap1 1 = Some (element0 ''root'' 0 [2, 3, 4] [])"
  unfolding heap1_def built0_def
  by (simp_all add: sample_defs init_defs)

lemma isHidden_root0: "isHidden root0 [2] = Inr False"
  by (simp add: isHidden.simps lookup_node_def root0_eq)

text \<open>
  In the first sample store with an interface that denies every change, the node \<open>b\<close> keeps
  its value 2 when it is set to 7 and when it is cleared: the store is left as it was, but
  for the record of the one call of the handler.
\<close>

theorem setValue_denied_witness:
  "map_option (location \<circ> attrs) (node_at root0 [2]) = Some [''b'']
   \<and> getValue dts_int store0_deny [2] False = Inr (Some 2)
   \<and> denies store0_deny [2] (Some 7) 0
   \<and> denies store0_deny [2] None 0
   \<and> map_option fst (setValue dts_int 1 1 [2] (Some 7) store0_deny) = Some (Inr (Some False))
   \<and> map_option (\<lambda>r. state (snd r)) (setValue dts_int 1 1 [2] (Some 7) store0_deny)
        = Some (state0\<lparr>interfaces := [iface_deny], events := [BeforeChange 0 [2] (Some 7)]\<rparr>)
   \<and> map_option fst (setValue dts_int 1 1 [2] None store0_deny) = Some (Inr None)
   \<and> map_option (\<lambda>r. state (snd r)) (setValue dts_int 1 1 [2] None store0_deny)
        = Some (state0\<lparr>interfaces := [iface_deny], events := [BeforeChange 0 [2] None]\<rparr>)"
proof -
  let ?n = "children root0 ! 2"
  have n: "node_at (root (state store0_deny)) [2] = Some ?n"
    and v: "valid (attrs ?n)" and l: "location (attrs ?n) = [''b'']"
    by (simp_all add: store0_deny_def state0_def root0_eq)
  have g: "getValue dts_int store0_deny [2] False = Inr (Some 2)"
    by (simp add: store0_deny_def state0_def lookup_node_def own_value_def root0_eq
          getValueType_class_def dts_int_def heap1_values int_load_def element0_def
          py_int_def strip_def is_space_def digits_int_def is_digit_def nat_of_digits_def
          digit_val_def)
  have a1: "asks_interfaces dts_int store0_deny [2] ?n (Some 7)"
    by (simp add: asks_interfaces_def store0_deny_def state0_def own_value_def root0_eq
          getValueType_class_def dts_int_def heap1_values int_load_def element0_def
          py_int_def strip_def is_space_def digits_int_def is_digit_def nat_of_digits_def
          digit_val_def)
  have a2: "asks_interfaces dts_int store0_deny [2] ?n None"
    by (simp add: asks_interfaces_def root0_eq canHaveClones_def)
  have d1: "denies store0_deny [2] (Some 7) 0" and d2: "denies store0_deny [2] None 0"
    by (simp_all add: denies_def store0_deny_def state0_def iface_deny_def isHidden_root0)
  from setValue_denied [OF n v a1 d1, of 1 1] obtain evs1 where
    e1: "setValue dts_int 1 1 [2] (Some 7) store0_deny
           = Some (Inr (Some False), with_events store0_deny evs1)" by auto
  from setValue_denied [OF n v a2 d2, of 1 1] obtain evs2 where
    e2: "setValue dts_int 1 1 [2] None store0_deny
           = Some (Inr None, with_events store0_deny evs2)" by auto
  have c1: "map_option (\<lambda>r. state (snd r)) (setValue dts_int 1 1 [2] (Some 7) store0_deny)
        = Some (state0\<lparr>interfaces := [iface_deny], events := [BeforeChange 0 [2] (Some 7)]\<rparr>)"
    by (simp add: setValue_def liftP_def bindP_def the_node_def readS_def lookup_node_def returnS_def
          store0_deny_def state0_def own_value_def root0_eq
          getValueType_class_def dts_int_def heap1_values int_load_def element0_def
          py_int_def strip_def is_space_def digits_int_def is_digit_def nat_of_digits_def
          digit_val_def onBeforeChange_def active_interfaces_def iface_onBeforeChange_def
          bindS_def raiseS_def emit_def modifyS_def iface_deny_def isHidden.simps)
  have c2: "map_option (\<lambda>r. state (snd r)) (setValue dts_int 1 1 [2] None store0_deny)
        = Some (state0\<lparr>interfaces := [iface_deny], events := [BeforeChange 0 [2] None]\<rparr>)"
    by (simp add: setValue_def liftP_def clearValue_def the_node_def readS_def lookup_node_def
          returnS_def store0_deny_def state0_def root0_eq canHaveClones_def
          onBeforeChange_def active_interfaces_def iface_onBeforeChange_def
          bindS_def raiseS_def emit_def modifyS_def iface_deny_def isHidden.simps)
  from n l g d1 d2 e1 e2 c1 c2 show ?thesis by (simp add: store0_deny_def state0_def)
qed

subsection \<open>The result of setting a value\<close>

text \<open>
  Setting a node to the value it has changes nothing and returns \<^verbatim>\<open>False\<close>: no interface is
  asked and no handler is called.
\<close>

lemma setValue_same_value:
  assumes "node_at (root (state st)) p = Some n"
    and "own_value dts (state st) n = Inr (Some v)"
  shows "setValue dts fuel depth p (Some v) st = Some (Inr (Some False), st)"
  using assms
  by (simp add: setValue_def liftP_def bindP_def the_node_def readS_def lookup_node_def returnS_def)

lemma heap1_root: "heap1 (Suc 0) = Some (element0 ''root'' 0 [2, 3, 4] [])"
  using heap1_values(4) by simp

text \<open>
  Claim C5, where the code departs from it. The claim has \<^verbatim>\<open>setValue\<close> report, whenever the
  new value is not the current one, whether a change occurred, as the documentation of the
  method does ("Returns True if the value of the node was changed"). In the first sample
  store, without interfaces, the node \<open>b\<close> holds 2; \<^verbatim>\<open>setValue(None)\<close> removes its value element
  from the document, flags the store as changed and leaves the node without value, and
  returns Python's \<^verbatim>\<open>None\<close>, not \<^verbatim>\<open>True\<close>.
\<close>

theorem setValue_None_returns_None:
  "getValue dts_int store0 [2] False = Inr (Some 2)
   \<and> map_option fst (setValue dts_int 1 1 [2] None store0) = Some (Inr None)
   \<and> getValue dts_int (snd (the (setValue dts_int 1 1 [2] None store0))) [2] False = Inr None
   \<and> changed (state (snd (the (setValue dts_int 1 1 [2] None store0))))
   \<and> children_of heap1 1 = [2, 3, 4]
   \<and> children_of (xmldocument (state (snd (the (setValue dts_int 1 1 [2] None store0))))) 1 = [2, 4]"
proof -
  have g: "getValue dts_int store0 [2] False = Inr (Some 2)"
    by (simp add: store0_def state0_def lookup_node_def own_value_def root0_eq
          getValueType_class_def dts_int_def heap1_values int_load_def element0_def
          py_int_def strip_def is_space_def digits_int_def is_digit_def nat_of_digits_def
          digit_val_def)
  have s: "setValue dts_int 1 1 [2] None store0 =
     Some (Inr None,
       Store (state0\<lparr>root := update_attrs [2] (\<lambda>at. at\<lparr>valueroot := None, valuenode := None\<rparr>) root0,
                     xmldocument := heap1(1 \<mapsto> element0 ''root'' 0 [2, 4] [],
                                          3 \<mapsto> (element0 ''b'' 1 [] ''2'')\<lparr>parentNode := None\<rparr>),
                     changed := True\<rparr>) None [])"
    by (simp add: setValue_def liftP_def clearValue_def the_node_def readS_def lookup_node_def
          returnS_def store0_def state0_def root0_eq canHaveClones_def
          onBeforeChange_def active_interfaces_def bindS_def raiseS_def modifyS_def
          set_attrs_def heap1_values heap1_root removeChild_def element0_def onChange.simps
          findDescendantNode_def)
  have c: "children_of heap1 1 = [2, 3, 4]"
    by (simp add: children_of_def heap1_root element0_def)
  from g c show ?thesis
    unfolding s
    by (simp add: children_of_def element0_def lookup_node_def own_value_def root0_eq state0_def
          heap1_root)
qed

subsection \<open>The order of the visibility updates\<close>

lemma build_depnodes_inspect:
  "build_depnodes dts depth p ds acc st =
     (case inspect_dependents dts depth p ds st of
        (Inl e, st') \<Rightarrow> (Inl e, st')
      | (Inr found, st') \<Rightarrow>
          (Inr (map fst (rev (filter (\<lambda>x. \<not> snd x) found)) @ acc @ map fst (filter snd found)), st'))"
proof (induction ds arbitrary: acc st)
  case Nil
  then show ?case by (simp add: returnS_def)
next
  case (Cons d ds)
  show ?case
  proof (cases "dependent_node p d st")
    case (Pair r st1)
    show ?thesis
    proof (cases r)
      case (Inl e)
      with Pair show ?thesis by (simp add: bindS_def)
    next
      case (Inr q)
      note q = Pair Inr
      show ?thesis
      proof (cases "getAttribute d ''type'' = ''visibility''")
        case True
        show ?thesis
        proof (cases "the_node q st1")
          case (Pair r2 st2)
          show ?thesis
          proof (cases r2)
            case (Inl e)
            with q True Pair show ?thesis by (simp add: bindS_def)
          next
            case (Inr vn)
            with Pair have st2: "st2 = st1" by (auto simp: the_node_def readS_def)
            from q True Pair Inr st2 show ?thesis
              by (cases "inspect_dependents dts depth p ds st1")
                 (auto simp: bindS_def returnS_def Cons.IH split: sum.splits)
          qed
        qed
      next
        case False
        show ?thesis
        proof (cases depth)
          case 0
          with q False show ?thesis by (simp add: bindS_def raiseS_def)
        next
          case (Suc depth')
          with q False show ?thesis
            by (cases "onChange dts depth' q (getAttribute d ''type'') st1")
               (auto simp: bindS_def Cons.IH[unfolded Suc] split: sum.splits)
        qed
      qed
    qed
  qed
qed

lemma dependent_node_reads: "snd (dependent_node p d st) = st"
  by (auto simp: dependent_node_def Let_def raiseS_def bindS_def readS_def returnS_def
           split: option.splits sum.splits)

lemma inspect_visibility_only:
  assumes "\<forall>d \<in> set ds. getAttribute d ''type'' = ''visibility''"
    and "inspect_dependents dts depth p ds st = (Inr found, st1)"
  shows "st1 = st \<and> (\<forall>x \<in> set found.
            map_option (\<lambda>vn. visible (attrs vn)) (node_at (root (state st)) (fst x)) = Some (snd x))"
  using assms
proof (induction ds arbitrary: found)
  case Nil
  then show ?case by (simp add: returnS_def)
next
  case (Cons d ds)
  from Cons.prems(1) have v: "getAttribute d ''type'' = ''visibility''"
    and rest: "\<forall>d \<in> set ds. getAttribute d ''type'' = ''visibility''" by simp_all
  obtain r where r: "dependent_node p d st = (r, st)"
    using dependent_node_reads[of p d st] by (cases "dependent_node p d st") simp
  from Cons.prems(2) v r obtain q where q: "r = Inr q"
    by (cases r) (simp_all add: bindS_def)
  from Cons.prems(2) v r q obtain vn where vn: "node_at (root (state st)) q = Some vn"
    by (cases "node_at (root (state st)) q")
       (simp_all add: bindS_def the_node_def readS_def lookup_node_def)
  from Cons.prems(2) v r q vn obtain found' where
    f: "inspect_dependents dts depth p ds st = (Inr found', st1)"
       "found = (q, visible (attrs vn)) # found'"
    by (cases "inspect_dependents dts depth p ds st")
       (auto simp: bindS_def the_node_def readS_def lookup_node_def returnS_def split: sum.splits)
  from Cons.IH[OF rest f(1)] f(2) vn show ?case by simp
qed

text \<open>
  Claim C7. When the value of a node has changed and its schema element registers
  dependents, \<^verbatim>\<open>updateDependantNodes\<close> recomputes the visibility (\<^verbatim>\<open>updateVisibility\<close>) of the
  visibility dependents in this order: all those found hidden, then all those found visible,
  whatever their order in the schema. "Found" is the moment the first loop reaches the
  dependent; when all dependents are visibility dependents, the first loop changes nothing
  and that is the visibility in the store as \<^verbatim>\<open>updateDependantNodes\<close> is called.
\<close>

theorem updateDependantNodes_hidden_first:
  assumes "node_at (root (state st)) p = Some n"
    and "findDescendantNode (templatenode (attrs n)) ''dependentvariables'' = Some deps"
    and "inspect_dependents dts depth p (findDescendantNodes deps ''dependentvariable'') st
           = (Inr found, st1)"
  shows "updateDependantNodes dts depth p st = forS (hidden_first found) (updateVisibility dts) st1
       \<and> ((\<forall>d \<in> set (findDescendantNodes deps ''dependentvariable'').
              getAttribute d ''type'' = ''visibility'') \<longrightarrow>
            st1 = st \<and> (\<forall>x \<in> set found.
              map_option (\<lambda>vn. visible (attrs vn)) (node_at (root (state st)) (fst x))
                = Some (snd x)))"
proof (intro conjI impI)
  show "updateDependantNodes dts depth p st = forS (hidden_first found) (updateVisibility dts) st1"
    using assms
    by (simp add: bindS_def the_node_def readS_def lookup_node_def build_depnodes_inspect
          hidden_first_def)
next
  assume a: "\<forall>d \<in> set (findDescendantNodes deps ''dependentvariable'').
              getAttribute d ''type'' = ''visibility''"
  from inspect_visibility_only[OF a assms(3)]
  show "st1 = st" and "\<forall>x \<in> set found.
              map_option (\<lambda>vn. visible (attrs vn)) (node_at (root (state st)) (fst x))
                = Some (snd x)" by simp_all
qed

lemma root4_eq: "root4 =
  Node \<lparr>valid = True, templatenode = schema4, valueroot = Some 1, valuenode = Some 1,
          location = [], visible = True, grouponly = [[]]\<rparr>
   [Node \<lparr>valid = True, templatenode = schema4_mode, valueroot = Some 2, valuenode = Some 2,
            location = [''mode''], visible = True, grouponly = [[]]\<rparr> [],
    Node \<lparr>valid = True, templatenode = schema4_x, valueroot = None, valuenode = None,
            location = [''x''], visible = True, grouponly = [[]]\<rparr> [],
    Node \<lparr>valid = True, templatenode = schema4_y, valueroot = None, valuenode = None,
            location = [''y''], visible = False, grouponly = [[]]\<rparr> []]"
  unfolding root4_def
  by (simp add: schema4_def schema4_mode_def schema4_x_def schema4_y_def heap7_def dts_int_def
        element0_def init_defs)

lemmas eval4 = store4_def root4_eq schema4_mode_def schema4_x_def schema4_y_def
  findDescendantNode_def findDescendantNodes_def dependent_node_def parent_def getitem_def
  getLocation_def parse_childname_def endswith_def getId_def bindS_def returnS_def readS_def
  raiseS_def the_node_def lookup_node_def Let_def

lemma store4_events:
  "fst (updateDependantNodes dts_int 1 [0] store4) = Inr ()
   \<and> events (state (snd (updateDependantNodes dts_int 1 [0] store4))) =
      [BeforeVisibilityChange 0 [Node \<lparr>valid = True, templatenode = schema4_y, valueroot = None,
           valuenode = None, location = [''y''], visible = False, grouponly = [[]]\<rparr> []] True True,
       AfterVisibilityChange 0 [Node \<lparr>valid = True, templatenode = schema4_y, valueroot = None,
           valuenode = None, location = [''y''], visible = True, grouponly = [[]]\<rparr> []] True True,
       BeforeVisibilityChange 0 [Node \<lparr>valid = True, templatenode = schema4_x, valueroot = None,
           valuenode = None, location = [''x''], visible = True, grouponly = [[]]\<rparr> []] False True,
       AfterVisibilityChange 0 [Node \<lparr>valid = True, templatenode = schema4_x, valueroot = None,
           valuenode = None, location = [''x''], visible = False, grouponly = [[]]\<rparr> []] False True]"
  by (simp add: eval4 updateVisibility_def check_comparison_def condition_target_def
        own_value_def getValueType_class_def dts_int_def heap7_def element0_def int_load_def
        int_fromXmlString_def py_int_def strip_def is_space_def digits_int_def is_digit_def
        nat_of_digits_def digit_val_def
        beforeVisibilityChange_def afterVisibilityChange_def active_interfaces_def
        iface_beforeVisibilityChange_def iface_afterVisibilityChange_def
        iface_notify_visibility_def set_interface_def set_attrs_def modifyS_def emit_def
        iface_viz_def isGrouper_def)

text \<open>
  In the fourth sample store the schema lists the visible dependent \<open>x\<close> before the hidden
  dependent \<open>y\<close>; the visibility of \<open>y\<close> is recomputed first. With \<open>mode\<close> at 2 the interface
  is told that \<open>y\<close> appears before it is told that \<open>x\<close> goes.
\<close>

theorem updateDependantNodes_hidden_first_witness:
  "map_option (location \<circ> attrs) (node_at root4 [0]) = Some [''mode'']
   \<and> map_option (\<lambda>n. (location (attrs n), visible (attrs n))) (node_at root4 [1])
        = Some ([''x''], True)
   \<and> map_option (\<lambda>n. (location (attrs n), visible (attrs n))) (node_at root4 [2])
        = Some ([''y''], False)
   \<and> map (\<lambda>d. getAttribute d ''path'')
        (findDescendantNodes (the (findDescendantNode schema4_mode ''dependentvariables''))
           ''dependentvariable'') = [''x'', ''y'']
   \<and> updateDependantNodes dts_int 1 [0] store4
        = forS [[2], [1]] (updateVisibility dts_int) store4
   \<and> fst (updateDependantNodes dts_int 1 [0] store4) = Inr ()
   \<and> map (\<lambda>ev. case ev of
                  BeforeVisibilityChange i ns shownew showhide \<Rightarrow>
                    (''before'', map (\<lambda>n. location (attrs n)) ns, shownew)
                | AfterVisibilityChange i ns shownew showhide \<Rightarrow>
                    (''after'', map (\<lambda>n. location (attrs n)) ns, shownew)
                | _ \<Rightarrow> ([], [], False))
        (events (state (snd (updateDependantNodes dts_int 1 [0] store4))))
      = [(''before'', [[''y'']], True), (''after'', [[''y'']], True),
         (''before'', [[''x'']], False), (''after'', [[''x'']], False)]"
proof -
  let ?deps = "the (findDescendantNode schema4_mode ''dependentvariables'')"
  let ?n = "children root4 ! 0"
  have n: "node_at (root (state store4)) [0] = Some ?n"
    and l: "location (attrs ?n) = [''mode'']"
    and x: "map_option (\<lambda>n. (location (attrs n), visible (attrs n))) (node_at root4 [1])
        = Some ([''x''], True)"
    and y: "map_option (\<lambda>n. (location (attrs n), visible (attrs n))) (node_at root4 [2])
        = Some ([''y''], False)"
    by (simp_all add: store4_def root4_eq)
  have d: "findDescendantNode (templatenode (attrs ?n)) ''dependentvariables'' = Some ?deps"
    by (simp add: root4_eq schema4_mode_def findDescendantNode_def)
  have ps: "map (\<lambda>d. getAttribute d ''path'') (findDescendantNodes ?deps ''dependentvariable'')
        = [''x'', ''y'']"
    by (simp add: schema4_mode_def findDescendantNode_def findDescendantNodes_def)
  have i: "inspect_dependents dts_int 1 [0] (findDescendantNodes ?deps ''dependentvariable'') store4
        = (Inr [([1], True), ([2], False)], store4)"
    by (simp add: eval4)
  have h: "hidden_first [([1], True), ([2], False)] = [[2], [1]]"
    by (simp add: hidden_first_def)
  from updateDependantNodes_hidden_first [OF n d i] h
  have u: "updateDependantNodes dts_int 1 [0] store4
        = forS [[2], [1]] (updateVisibility dts_int) store4" by simp
  from n l x y ps u store4_events show ?thesis
    by (simp add: store4_def)
qed

end
